theory Spec2Isabelle
  imports Complex_Main "HOL-Library.Sublist"
begin

section \<open>Name similarity engine of unique\_variable\_names.cpp\<close>

text \<open>
  Modelling conventions.
  \<^item> A value of type \<open>string\<close> stands for the characters of a C string before its
    terminator, so \<open>length\<close> is \<open>strlen\<close> and \<open>size()\<close>. The terminator itself is the
    character \<open>NUL\<close>; it only occurs in the raw storage of the static buffer \<open>lcs\<close>.
  \<^item> \<open>size_t\<close>, \<open>unsigned\<close> and \<open>int\<close> counters are \<open>nat\<close>: every table entry is bounded by
    the length of the shorter string and every counter by a string length plus one.
  \<^item> A \<open>float\<close> is a real number that \<open>binary32\<close> leaves unchanged, a \<open>double\<close> one
    that \<open>binary64\<close> leaves unchanged; both round to the nearest value with ties to
    even. Every quotient of lengths lies far inside the exponent range, so the range
    is not modelled. Lengths and table entries are below \<open>2^24\<close>, so their conversion
    to \<open>float\<close> is exact. The special values that a division by zero produces
    (infinity, not-a-number) are constructors of \<open>fval\<close>.
  \<^item> \<open>similarityMetric\<close> gives the quotient \<open>lenLCS / len1\<close>; the \<open>float\<close> that the C
    function returns is \<open>binary32\<close> of it, applied where \<open>processNames\<close> compares it.
  \<^item> \<open>ROSE_ASSERT\<close>, a write outside the static buffer and the construction of a
    \<open>std::string\<close> from a null pointer are results of type \<open>error\<close>.
\<close>

subsection \<open>Constants and errors\<close>

definition MAX_LCS :: nat where
  "MAX_LCS = 256"

definition similarity_threshold :: real where
  "similarity_threshold = 0.75"

definition NUL :: char where
  "NUL = CHR 0x00"

datatype error = AssertionFailed | BufferOverflow | NullString

subsection \<open>similarityMetric\<close>

text \<open>
  The body of the inner loop at column \<open>k\<close>:
  \<^verbatim>\<open>if (str1[k-1] == str2[j]) next[k] = previous[k-1]+1;
   else next[k] = previous[k] >= next[k-1] ? previous[k] : next[k-1];\<close>
\<close>

definition next_cell :: "string \<Rightarrow> char \<Rightarrow> nat list \<Rightarrow> nat list \<Rightarrow> nat \<Rightarrow> nat list" where
  "next_cell str1 ch previous next k =
     next[k := (if str1 ! (k - 1) = ch then previous ! (k - 1) + 1
                else if previous ! k \<ge> next ! (k - 1) then previous ! k
                else next ! (k - 1))]"

text \<open>\<^verbatim>\<open>for (k=1; k<=len1; ++k)\<close>\<close>

definition next_row :: "string \<Rightarrow> char \<Rightarrow> nat list \<Rightarrow> nat list \<Rightarrow> nat list" where
  "next_row str1 ch previous next =
     foldl (next_cell str1 ch previous) next [1..<Suc (length str1)]"

text \<open>
  \<^verbatim>\<open>for (j=0; j<len2; ++j) { ...; swap(&previous, &next); }\<close>
  The state is the pair of the two arrays; after the swap the freshly filled row is
  \<open>previous\<close> and the old \<open>previous\<close> is reused as \<open>next\<close>.
\<close>

definition rolling_rows :: "string \<Rightarrow> string \<Rightarrow> nat list \<times> nat list" where
  "rolling_rows str1 str2 =
     foldl (\<lambda>(previous, next) j. (next_row str1 (str2 ! j) previous next, previous))
       (replicate (length str1 + 1) 0, replicate (length str1 + 1) 0)
       [0..<length str2]"

definition lenLCS :: "string \<Rightarrow> string \<Rightarrow> nat" where
  "lenLCS str1 str2 = fst (rolling_rows str1 str2) ! length str1"

definition similarityMetric :: "string \<Rightarrow> string \<Rightarrow> error + real" where
  "similarityMetric strX strY =
     (let lenX = length strX; lenY = length strY;
          str1 = (if lenX > lenY then strX else strY);
          str2 = (if lenX > lenY then strY else strX);
          len1 = length str1; len2 = length str2
      in if \<not> len1 \<ge> len2 then Inl AssertionFailed
         else if len1 = 0 \<or> len2 = 0 then Inr 0
         else Inr (real (lenLCS str1 str2) / real len1))"

subsection \<open>longestCommonSubstring\<close>

text \<open>
  \<^verbatim>\<open>if (str1[c-1] == str2[r-1]) align[r][c]=align[r-1][c-1]+1;
   else align[r][c]=align[r-1][c]>=align[r][c-1]?align[r-1][c]:align[r][c-1];\<close>
\<close>

definition align_cell :: "string \<Rightarrow> string \<Rightarrow> nat \<Rightarrow> nat list list \<Rightarrow> nat \<Rightarrow> nat list list" where
  "align_cell str1 str2 r align c =
     align[r := (align ! r)[c :=
       (if str1 ! (c - 1) = str2 ! (r - 1) then align ! (r - 1) ! (c - 1) + 1
        else if align ! (r - 1) ! c \<ge> align ! r ! (c - 1) then align ! (r - 1) ! c
        else align ! r ! (c - 1))]]"

definition align_row :: "string \<Rightarrow> string \<Rightarrow> nat list list \<Rightarrow> nat \<Rightarrow> nat list list" where
  "align_row str1 str2 align r =
     foldl (align_cell str1 str2 r) align [1..<Suc (length str1)]"

definition align_table :: "string \<Rightarrow> string \<Rightarrow> nat list list" where
  "align_table str1 str2 =
     foldl (align_row str1 str2)
       (replicate (length str2 + 1) (replicate (length str1 + 1) 0))
       [1..<Suc (length str2)]"

text \<open>
  The static array \<open>lcs[MAX_LCS]\<close> is a list of \<open>MAX_LCS\<close> characters. A write at an
  index outside the array is an error.
\<close>

definition lcs_write :: "char list \<Rightarrow> nat \<Rightarrow> char \<Rightarrow> error + char list" where
  "lcs_write lcs i ch = (if i < MAX_LCS then Inr (lcs[i := ch]) else Inl BufferOverflow)"

text \<open>
  The reconstruction loop, entered with \<open>i = align[r][c]\<close>. Each iteration ends with
  \<open>i = align[r][c]\<close>. When none of the three tests succeeds the state does not change
  and the loop goes on with the same state.
\<close>

partial_function (option) backtrack ::
  "nat list list \<Rightarrow> string \<Rightarrow> nat \<Rightarrow> nat \<Rightarrow> nat \<Rightarrow> char list \<Rightarrow> (error + char list) option" where
  "backtrack align str2 r c i lcs =
     (if i > 0 \<and> r > 0 \<and> c > 0 then
        (if align ! (r - 1) ! c = i then
           backtrack align str2 (r - 1) c (align ! (r - 1) ! c) lcs
         else if align ! r ! (c - 1) = i then
           backtrack align str2 r (c - 1) (align ! r ! (c - 1)) lcs
         else if align ! (r - 1) ! (c - 1) = i - 1 then
           (case lcs_write lcs (i - 1) (str2 ! (r - 1)) of
              Inl e \<Rightarrow> Some (Inl e)
            | Inr lcs' \<Rightarrow>
                backtrack align str2 (r - 1) (c - 1) (align ! (r - 1) ! (c - 1)) lcs')
         else backtrack align str2 r c (align ! r ! c) lcs)
      else Some (Inr lcs))"

declare backtrack.simps [code]

text \<open>
  What a call returns: the null pointer (\<^verbatim>\<open>return 0\<close>), or the pointer to the static
  array, given here with the array's contents at that moment.
\<close>

datatype returned = Null | Lcs "char list"

text \<open>The C string stored in an array: the characters before the first terminator.\<close>

definition c_str :: "char list \<Rightarrow> string" where
  "c_str buf = takeWhile (\<lambda>ch. ch \<noteq> NUL) buf"

definition longestCommonSubstring ::
  "string \<Rightarrow> string \<Rightarrow> char list \<Rightarrow> (error + returned) option" where
  "longestCommonSubstring str1 str2 lcs =
     (let len1 = length str1; len2 = length str2
      in if len1 = 0 \<or> len2 = 0 then Some (Inr Null)
         else
           (let align = align_table str1 str2;
                r = len2; c = len1; i = align ! r ! c
            in case lcs_write lcs i NUL of
                 Inl e \<Rightarrow> Some (Inl e)
               | Inr lcs0 \<Rightarrow>
                   (case backtrack align str2 r c i lcs0 of
                      None \<Rightarrow> None
                    | Some (Inl e) \<Rightarrow> Some (Inl e)
                    | Some (Inr lcs') \<Rightarrow> Some (Inr (Lcs lcs')))))"

subsection \<open>Binary floating point\<close>

text \<open>Rounding a real to the nearest integer, ties to the even one.\<close>

definition round_even :: "real \<Rightarrow> int" where
  "round_even y =
     (let f = \<lfloor>y\<rfloor>
      in if y - of_int f < 1 / 2 then f
         else if y - of_int f > 1 / 2 then f + 1
         else if even f then f else f + 1)"

text \<open>
  Rounding to a significand of \<open>p\<close> bits: \<open>q\<close> is the distance of neighbouring values
  in the binade of \<open>x\<close>.
\<close>

definition round_to :: "nat \<Rightarrow> real \<Rightarrow> real" where
  "round_to p x =
     (if x = 0 then 0
      else (let q = 2 powr of_int (\<lfloor>log 2 \<bar>x\<bar>\<rfloor> - int p + 1)
            in q * of_int (round_even (x / q))))"

definition binary32 :: "real \<Rightarrow> real" where
  "binary32 x = round_to 24 x"

definition binary64 :: "real \<Rightarrow> real" where
  "binary64 x = round_to 53 x"

subsection \<open>processNames\<close>

record 'n NameStructure =
  name :: string
  associatedNode :: 'n

text \<open>
  The value of \<^verbatim>\<open>((float)j_length) / ((float)i_length)\<close>: the quotient rounded to
  \<open>float\<close>, or one of the special values when \<open>i_length\<close> is zero.
\<close>

datatype fval = Fin real | PInf | NaN

definition float_div :: "nat \<Rightarrow> nat \<Rightarrow> fval" where
  "float_div a b =
     (if b \<noteq> 0 then Fin (binary32 (real a / real b)) else if a \<noteq> 0 then PInf else NaN)"

text \<open>
  \<^verbatim>\<open>greatestPossibleSimilarity = 1.0 / greatestPossibleSimilarity\<close>: the division is
  made in \<open>double\<close> and the assignment rounds its result to \<open>float\<close>.
\<close>

definition float_recip :: "fval \<Rightarrow> fval" where
  "float_recip x =
     (case x of
        Fin a \<Rightarrow> (if a \<noteq> 0 then Fin (binary32 (binary64 (1 / a))) else PInf)
      | PInf \<Rightarrow> Fin 0
      | NaN \<Rightarrow> NaN)"

text \<open>Comparisons with a finite value; every comparison with not-a-number is false.\<close>

definition float_gt :: "fval \<Rightarrow> real \<Rightarrow> bool" where
  "float_gt x b = (case x of Fin a \<Rightarrow> a > b | PInf \<Rightarrow> True | NaN \<Rightarrow> False)"

definition float_lt :: "fval \<Rightarrow> real \<Rightarrow> bool" where
  "float_lt x b = (case x of Fin a \<Rightarrow> a < b | PInf \<Rightarrow> False | NaN \<Rightarrow> False)"

definition greatestPossibleSimilarity :: "nat \<Rightarrow> nat \<Rightarrow> fval" where
  "greatestPossibleSimilarity i_length j_length =
     (let g = float_div j_length i_length
      in if float_gt g 1 then float_recip g else g)"

type_synonym 'n match = "'n NameStructure \<times> 'n NameStructure"

text \<open>
  The state of the loops: the vector \<open>results\<close> and the static array \<open>lcs\<close> that
  \<open>longestCommonSubstring\<close> writes. The threshold \<open>t\<close> is the value of the global
  \<open>float\<close> variable \<open>similarity_threshold\<close>.
\<close>

type_synonym 'n loop_state = "'n match list \<times> char list"

text \<open>The body of the inner loop for a pair that passed the test \<^verbatim>\<open>j_index <= i_index\<close>.\<close>

definition compare_pair ::
  "real \<Rightarrow> 'n NameStructure \<Rightarrow> 'n NameStructure \<Rightarrow> 'n loop_state
     \<Rightarrow> (error + 'n loop_state) option" where
  "compare_pair t i j st =
     (let results = fst st; lcs = snd st;
          i_length = length (name i); j_length = length (name j)
      in if float_lt (greatestPossibleSimilarity i_length j_length) t then Some (Inr st)
         else
           (case similarityMetric (name i) (name j) of
              Inl e \<Rightarrow> Some (Inl e)
            | Inr q \<Rightarrow>
                (let similarity = binary32 q
                 in if similarity > t then
                      (case longestCommonSubstring (name i) (name j) lcs of
                         None \<Rightarrow> None
                       | Some (Inl e) \<Rightarrow> Some (Inl e)
                       | Some (Inr Null) \<Rightarrow> Some (Inl NullString)
                       | Some (Inr (Lcs lcs')) \<Rightarrow> Some (Inr (results @ [(i, j)], lcs')))
                    else Some (Inr st))))"

text \<open>The inner loop: \<open>js\<close> is what the iterator \<open>j\<close> has still to visit.\<close>

fun inner_loop ::
  "real \<Rightarrow> 'n NameStructure \<Rightarrow> nat \<Rightarrow> 'n NameStructure list \<Rightarrow> nat \<Rightarrow> 'n loop_state
     \<Rightarrow> (error + 'n loop_state) option" where
  "inner_loop t i i_index [] j_index st = Some (Inr st)"
| "inner_loop t i i_index (j # js) j_index st =
     (let j_index = j_index + 1
      in if j_index \<le> i_index then inner_loop t i i_index js j_index st
         else
           (case compare_pair t i j st of
              None \<Rightarrow> None
            | Some (Inl e) \<Rightarrow> Some (Inl e)
            | Some (Inr st') \<Rightarrow> inner_loop t i i_index js j_index st'))"

text \<open>The outer loop: \<open>is\<close> is what the iterator \<open>i\<close> has still to visit.\<close>

fun outer_loop ::
  "real \<Rightarrow> 'n NameStructure list \<Rightarrow> 'n NameStructure list \<Rightarrow> nat \<Rightarrow> 'n loop_state
     \<Rightarrow> (error + 'n loop_state) option" where
  "outer_loop t nameList [] i_index st = Some (Inr st)"
| "outer_loop t nameList (i # is) i_index st =
     (let i_index = i_index + 1
      in case inner_loop t i i_index nameList 0 st of
           None \<Rightarrow> None
         | Some (Inl e) \<Rightarrow> Some (Inl e)
         | Some (Inr st') \<Rightarrow> outer_loop t nameList is i_index st')"

text \<open>
  The matching part of \<open>processNames\<close>: the vector \<open>results\<close> after the loops, with
  the final contents of the static array.
\<close>

definition processNames ::
  "real \<Rightarrow> 'n NameStructure list \<Rightarrow> char list \<Rightarrow> (error + 'n loop_state) option" where
  "processNames t nameList lcs = outer_loop t nameList nameList 0 ([], lcs)"

section \<open>Reference notions\<close>

text \<open>
  The recurrence that both dynamic programs fill in: the entry for the first \<open>r\<close>
  characters of \<open>s2\<close> and the first \<open>c\<close> characters of \<open>s1\<close>.
\<close>

fun lcs_tab :: "string \<Rightarrow> string \<Rightarrow> nat \<Rightarrow> nat \<Rightarrow> nat" where
  "lcs_tab s1 s2 0 c = 0"
| "lcs_tab s1 s2 (Suc r) 0 = 0"
| "lcs_tab s1 s2 (Suc r) (Suc c) =
     (if s1 ! c = s2 ! r then lcs_tab s1 s2 r c + 1
      else if lcs_tab s1 s2 r (Suc c) \<ge> lcs_tab s1 s2 (Suc r) c then lcs_tab s1 s2 r (Suc c)
      else lcs_tab s1 s2 (Suc r) c)"

text \<open>
  The string that the reconstruction reads off the table, with its order of tests
  (up, then left, then diagonal).
\<close>

fun lcs_str :: "string \<Rightarrow> string \<Rightarrow> nat \<Rightarrow> nat \<Rightarrow> string" where
  "lcs_str s1 s2 0 c = []"
| "lcs_str s1 s2 (Suc r) 0 = []"
| "lcs_str s1 s2 (Suc r) (Suc c) =
     (if lcs_tab s1 s2 r (Suc c) = lcs_tab s1 s2 (Suc r) (Suc c) then lcs_str s1 s2 r (Suc c)
      else if lcs_tab s1 s2 (Suc r) c = lcs_tab s1 s2 (Suc r) (Suc c) then lcs_str s1 s2 (Suc r) c
      else lcs_str s1 s2 r c @ [s2 ! r])"

text \<open>\<open>L\<close> is the length of a longest common subsequence of \<open>a\<close> and \<open>b\<close>.\<close>

definition is_lcs_length :: "string \<Rightarrow> string \<Rightarrow> nat \<Rightarrow> bool" where
  "is_lcs_length a b L \<longleftrightarrow>
     (\<exists>z. subseq z a \<and> subseq z b \<and> length z = L) \<and>
     (\<forall>w. subseq w a \<and> subseq w b \<longrightarrow> length w \<le> L)"

text \<open>The table is filled correctly up to and including row \<open>R\<close>.\<close>

definition table_ok :: "string \<Rightarrow> string \<Rightarrow> nat list list \<Rightarrow> nat \<Rightarrow> bool" where
  "table_ok s1 s2 align R \<longleftrightarrow>
     length align = Suc (length s2) \<and>
     (\<forall>r\<le>length s2. length (align ! r) = Suc (length s1) \<and> align ! r ! 0 = 0) \<and>
     (\<forall>r\<le>R. \<forall>c\<le>length s1. align ! r ! c = lcs_tab s1 s2 r c)"

text \<open>
  The pairs of positions that the two loops of \<open>processNames\<close> hand to the comparison,
  in the order of the loops: all pairs of positions, minus those that the test
  \<^verbatim>\<open>j_index <= i_index\<close> skips (the counters are one more than the positions).
\<close>

definition visited :: "nat \<Rightarrow> (nat \<times> nat) list" where
  "visited n = filter (\<lambda>(i, j). \<not> j + 1 \<le> i + 1) (List.product [0..<n] [0..<n])"

text \<open>The comparison of \<open>processNames\<close> run over a list of pairs, one after the other.\<close>

fun compare_all ::
  "real \<Rightarrow> 'n match list \<Rightarrow> 'n loop_state \<Rightarrow> (error + 'n loop_state) option" where
  "compare_all t [] st = Some (Inr st)"
| "compare_all t ((i, j) # ps) st =
     (case compare_pair t i j st of
        None \<Rightarrow> None
      | Some (Inl e) \<Rightarrow> Some (Inl e)
      | Some (Inr st') \<Rightarrow> compare_all t ps st')"

text \<open>The pairs that the outer loop still has to compare when it is at position \<open>k\<close>.\<close>

fun pairs_after :: "'a list \<Rightarrow> 'a list \<Rightarrow> nat \<Rightarrow> ('a \<times> 'a) list" where
  "pairs_after nameList [] k = []"
| "pairs_after nameList (x # xs) k =
     map (Pair x) (drop (Suc k) nameList) @ pairs_after nameList xs (Suc k)"

text \<open>
  The similarity score of two names, as the \<open>float\<close> that the call returns, strictly
  exceeds the threshold.
\<close>

definition exceeds :: "real \<Rightarrow> string \<Rightarrow> string \<Rightarrow> bool" where
  "exceeds t a b =
     (case similarityMetric a b of Inl e \<Rightarrow> False | Inr q \<Rightarrow> binary32 q > t)"

text \<open>The order of the visit: first by the outer position, then by the inner position.\<close>

definition visit_before :: "nat \<times> nat \<Rightarrow> nat \<times> nat \<Rightarrow> bool" where
  "visit_before p q \<longleftrightarrow> fst p < fst q \<or> (fst p = fst q \<and> snd p < snd q)"

section \<open>The two dynamic programs compute the length of a longest common subsequence\<close>

lemma lcs_tab_col0 [simp]: "lcs_tab s1 s2 r 0 = 0"
  by (cases r) simp_all

lemma next_row_prefix:
  assumes "length previous = Suc (length s1)" and "length nxt = Suc (length s1)"
    and "\<forall>k\<le>length s1. previous ! k = lcs_tab s1 s2 j k" and "nxt ! 0 = 0"
    and "m \<le> length s1"
  shows "length (foldl (next_cell s1 (s2 ! j) previous) nxt [1..<Suc m]) = Suc (length s1) \<and>
         (\<forall>k\<le>m. foldl (next_cell s1 (s2 ! j) previous) nxt [1..<Suc m] ! k = lcs_tab s1 s2 (Suc j) k)"
  using assms(5)
proof (induction m)
  case 0
  then show ?case using assms by simp
next
  case (Suc m)
  define N where "N = foldl (next_cell s1 (s2 ! j) previous) nxt [1..<Suc m]"
  from Suc have len: "length N = Suc (length s1)"
    and ih: "\<forall>k\<le>m. N ! k = lcs_tab s1 s2 (Suc j) k" and m: "Suc m \<le> length s1"
    by (simp_all add: N_def)
  have step: "foldl (next_cell s1 (s2 ! j) previous) nxt [1..<Suc (Suc m)] =
      next_cell s1 (s2 ! j) previous N (Suc m)"
    by (simp add: N_def)
  have pm: "previous ! m = lcs_tab s1 s2 j m" and psm: "previous ! Suc m = lcs_tab s1 s2 j (Suc m)"
    using assms(3) m by simp_all
  have nm: "N ! m = lcs_tab s1 s2 (Suc j) m" using ih by simp
  have new: "next_cell s1 (s2 ! j) previous N (Suc m) ! Suc m = lcs_tab s1 s2 (Suc j) (Suc m)"
    using len m by (simp add: next_cell_def pm psm nm)
  have old: "\<forall>k\<le>m. next_cell s1 (s2 ! j) previous N (Suc m) ! k = lcs_tab s1 s2 (Suc j) k"
    using ih by (simp add: next_cell_def)
  have "\<forall>k\<le>Suc m. next_cell s1 (s2 ! j) previous N (Suc m) ! k = lcs_tab s1 s2 (Suc j) k"
    using new old by (auto simp: le_Suc_eq)
  moreover have "length (next_cell s1 (s2 ! j) previous N (Suc m)) = Suc (length s1)"
    using len by (simp add: next_cell_def)
  ultimately show ?case unfolding step by blast
qed

lemma next_row_correct:
  assumes "length previous = Suc (length s1)" and "length nxt = Suc (length s1)"
    and "\<forall>k\<le>length s1. previous ! k = lcs_tab s1 s2 j k" and "nxt ! 0 = 0"
  shows "length (next_row s1 (s2 ! j) previous nxt) = Suc (length s1) \<and>
         (\<forall>k\<le>length s1. next_row s1 (s2 ! j) previous nxt ! k = lcs_tab s1 s2 (Suc j) k)"
  unfolding next_row_def using next_row_prefix [OF assms, of "length s1"] by simp

lemma rolling_rows_prefix:
  assumes "length p0 = Suc (length s1)" and "length n0 = Suc (length s1)" and "n0 ! 0 = 0"
    and "\<forall>k\<le>length s1. p0 ! k = 0"
  shows "case foldl (\<lambda>(previous, next) j. (next_row s1 (s2 ! j) previous next, previous))
       (p0, n0) [0..<m] of
     (p, n) \<Rightarrow> length p = Suc (length s1) \<and> length n = Suc (length s1) \<and> n ! 0 = 0 \<and>
        (\<forall>k\<le>length s1. p ! k = lcs_tab s1 s2 m k)"
proof (induction m)
  case 0
  then show ?case using assms by simp
next
  case (Suc m)
  define F where "F = (\<lambda>(previous, next) j. (next_row s1 (s2 ! j) previous next, previous))"
  obtain p n where pn: "foldl F (p0, n0) [0..<m] = (p, n)"
    by (cases "foldl F (p0, n0) [0..<m]")
  with Suc have inv: "length p = Suc (length s1)" "length n = Suc (length s1)" "n ! 0 = 0"
    "\<forall>k\<le>length s1. p ! k = lcs_tab s1 s2 m k"
    by (simp_all add: F_def)
  have p0: "p ! 0 = 0" using inv(4) by simp
  have "foldl F (p0, n0) [0..<Suc m] = (next_row s1 (s2 ! m) p n, p)"
    by (simp add: pn) (simp add: F_def)
  then show ?case
    using next_row_correct [OF inv(1) inv(2) inv(4) inv(3)] inv(1) p0
    by (simp add: F_def)
qed

lemma lenLCS_lcs_tab: "lenLCS s1 s2 = lcs_tab s1 s2 (length s2) (length s1)"
proof -
  have z: "\<forall>k\<le>length s1. replicate (length s1 + 1) (0::nat) ! k = 0"
    by (simp del: replicate_Suc)
  show ?thesis
    using rolling_rows_prefix [of "replicate (length s1 + 1) 0" s1 "replicate (length s1 + 1) 0" s2 "length s2"] z
    by (simp add: lenLCS_def rolling_rows_def split: prod.splits del: replicate_Suc)
qed


lemma subseq_snoc_butlast: "subseq w (ys @ [y]) \<Longrightarrow> subseq (butlast w) ys"
proof (induction ys arbitrary: w)
  case Nil
  then show ?case by (cases w) (auto split: if_splits)
next
  case (Cons a ys)
  show ?case
  proof (cases w)
    case Nil
    then show ?thesis by simp
  next
    case (Cons b w')
    with Cons.prems Cons.IH [of w'] Cons.IH [of w] show ?thesis
      by (auto split: if_splits)
  qed
qed

lemma subseq_snoc_other: "subseq w (ys @ [y]) \<Longrightarrow> w = [] \<or> last w \<noteq> y \<Longrightarrow> subseq w ys"
proof (induction ys arbitrary: w)
  case Nil
  then show ?case by (cases w) (auto split: if_splits)
next
  case (Cons a ys)
  show ?case
  proof (cases w)
    case Nil
    then show ?thesis by simp
  next
    case (Cons b w')
    with Cons.prems Cons.IH [of w'] Cons.IH [of w] show ?thesis
      by (auto split: if_splits)
  qed
qed

lemma lcs_tab_diag:
  "lcs_tab s1 s2 r (Suc c) \<noteq> lcs_tab s1 s2 (Suc r) (Suc c) \<Longrightarrow>
   lcs_tab s1 s2 (Suc r) c \<noteq> lcs_tab s1 s2 (Suc r) (Suc c) \<Longrightarrow>
   s1 ! c = s2 ! r \<and> lcs_tab s1 s2 (Suc r) (Suc c) = lcs_tab s1 s2 r c + 1"
  by (auto split: if_splits)

lemma length_lcs_str: "length (lcs_str s1 s2 r c) = lcs_tab s1 s2 r c"
proof (induction s1 s2 r c rule: lcs_str.induct)
  case (3 s1 s2 r c)
  then show ?case using lcs_tab_diag [of s1 s2 r c] by (simp del: lcs_tab.simps)
qed simp_all

lemma lcs_str_subseq2: "r \<le> length s2 \<Longrightarrow> subseq (lcs_str s1 s2 r c) (take r s2)"
proof (induction s1 s2 r c rule: lcs_str.induct)
  case (3 s1 s2 r c)
  have t: "take (Suc r) s2 = take r s2 @ [s2 ! r]"
    using 3(4) by (simp add: take_Suc_conv_app_nth)
  show ?case using 3 unfolding t
    by (auto simp del: lcs_tab.simps intro: subseq_rev_drop_many list_emb_append_mono)
qed simp_all

lemma lcs_str_subseq1: "c \<le> length s1 \<Longrightarrow> subseq (lcs_str s1 s2 r c) (take c s1)"
proof (induction s1 s2 r c rule: lcs_str.induct)
  case (3 s1 s2 r c)
  have t: "take (Suc c) s1 = take c s1 @ [s1 ! c]"
    using 3(4) by (simp add: take_Suc_conv_app_nth)
  show ?case using 3 lcs_tab_diag [of s1 s2 r c] unfolding t
    by (auto simp del: lcs_tab.simps intro: subseq_rev_drop_many list_emb_append_mono)
qed simp_all


lemma lcs_tab_upper:
  "r \<le> length s2 \<Longrightarrow> c \<le> length s1 \<Longrightarrow> subseq w (take r s2) \<Longrightarrow> subseq w (take c s1) \<Longrightarrow>
   length w \<le> lcs_tab s1 s2 r c"
proof (induction s1 s2 r c arbitrary: w rule: lcs_tab.induct)
  case (3 s1 s2 r c)
  have t2: "take (Suc r) s2 = take r s2 @ [s2 ! r]"
    using "3.prems"(1) by (simp add: take_Suc_conv_app_nth)
  have t1: "take (Suc c) s1 = take c s1 @ [s1 ! c]"
    using "3.prems"(2) by (simp add: take_Suc_conv_app_nth)
  have w2: "subseq w (take r s2 @ [s2 ! r])" and w1: "subseq w (take c s1 @ [s1 ! c])"
    using "3.prems"(3,4) t1 t2 by simp_all
  show ?case
  proof (cases "s1 ! c = s2 ! r")
    case True
    have "length (butlast w) \<le> lcs_tab s1 s2 r c"
      using "3.IH"(1) [OF True, of "butlast w"] "3.prems"(1,2)
        subseq_snoc_butlast [OF w2] subseq_snoc_butlast [OF w1]
      by simp
    then show ?thesis using True by simp
  next
    case False
    then have "w = [] \<or> last w \<noteq> s2 ! r \<or> last w \<noteq> s1 ! c" by auto
    then consider "subseq w (take r s2)" | "subseq w (take c s1)"
      using subseq_snoc_other [OF w2] subseq_snoc_other [OF w1] by blast
    then show ?thesis
    proof cases
      case 1
      then have "length w \<le> lcs_tab s1 s2 r (Suc c)"
        using "3.IH"(3) [OF False, of w] "3.prems" by simp
      then show ?thesis using False by simp
    next
      case 2
      then have "length w \<le> lcs_tab s1 s2 (Suc r) c"
        using "3.IH"(2) [OF False, of w] "3.prems" by simp
      then show ?thesis using False by simp
    qed
  qed
qed simp_all

lemma lcs_tab_is_lcs_length:
  "is_lcs_length s1 s2 (lcs_tab s1 s2 (length s2) (length s1))"
  unfolding is_lcs_length_def
proof (intro conjI allI impI)
  show "\<exists>z. subseq z s1 \<and> subseq z s2 \<and> length z = lcs_tab s1 s2 (length s2) (length s1)"
    using lcs_str_subseq1 [of "length s1" s1 s2 "length s2"]
      lcs_str_subseq2 [of "length s2" s2 s1 "length s1"]
      length_lcs_str [of s1 s2 "length s2" "length s1"]
    by auto
next
  fix w assume "subseq w s1 \<and> subseq w s2"
  then show "length w \<le> lcs_tab s1 s2 (length s2) (length s1)"
    using lcs_tab_upper [of "length s2" s2 "length s1" s1 w] by simp
qed

lemma is_lcs_length_unique: "is_lcs_length a b L \<Longrightarrow> is_lcs_length a b L' \<Longrightarrow> L = L'"
  unfolding is_lcs_length_def by (metis le_antisym)

lemma is_lcs_length_commute: "is_lcs_length a b L \<Longrightarrow> is_lcs_length b a L"
  unfolding is_lcs_length_def by blast

lemma is_lcs_length_le: "is_lcs_length a b L \<Longrightarrow> L \<le> min (length a) (length b)"
  unfolding is_lcs_length_def by (auto dest: list_emb_length)

lemma is_lcs_length_same: "is_lcs_length a a L \<Longrightarrow> L = length a"
  unfolding is_lcs_length_def
  by (metis le_antisym list_emb_length subseq_order.order_refl)

lemma lenLCS_is_lcs_length: "is_lcs_length s1 s2 (lenLCS s1 s2)"
  by (simp add: lenLCS_lcs_tab lcs_tab_is_lcs_length)

lemma lenLCS_commute: "lenLCS a b = lenLCS b a"
  using is_lcs_length_unique [OF lenLCS_is_lcs_length is_lcs_length_commute [OF lenLCS_is_lcs_length]] .

lemma similarityMetric_longer:
  "similarityMetric a b =
     (if a = [] \<or> b = [] then Inr 0
      else Inr (real (lenLCS a b) / real (max (length a) (length b))))"
  by (auto simp: similarityMetric_def Let_def max_def lenLCS_commute [of b a])

lemma similarityMetric_commute: "similarityMetric a b = similarityMetric b a"
  by (simp add: similarityMetric_longer lenLCS_commute [of a b] max.commute disj_commute)

subsection \<open>The full table of longestCommonSubstring\<close>

lemma align_row_prefix:
  assumes ok: "table_ok s1 s2 align R" and R: "Suc R \<le> length s2" and m: "m \<le> length s1"
  shows "table_ok s1 s2 (foldl (align_cell s1 s2 (Suc R)) align [1..<Suc m]) R \<and>
         (\<forall>c\<le>m. foldl (align_cell s1 s2 (Suc R)) align [1..<Suc m] ! Suc R ! c
                    = lcs_tab s1 s2 (Suc R) c)"
  using m
proof (induction m)
  case 0
  then show ?case using ok R by (simp add: table_ok_def)
next
  case (Suc m)
  define A where "A = foldl (align_cell s1 s2 (Suc R)) align [1..<Suc m]"
  from Suc have okA: "table_ok s1 s2 A R"
    and ih: "\<forall>c\<le>m. A ! Suc R ! c = lcs_tab s1 s2 (Suc R) c" and m: "Suc m \<le> length s1"
    by (simp_all add: A_def)
  have step: "foldl (align_cell s1 s2 (Suc R)) align [1..<Suc (Suc m)] = align_cell s1 s2 (Suc R) A (Suc m)"
    by (simp add: A_def)
  have lenA: "length A = Suc (length s2)"
    and rows: "\<And>r. r \<le> length s2 \<Longrightarrow> length (A ! r) = Suc (length s1) \<and> A ! r ! 0 = 0"
    and filled: "\<And>r c. r \<le> R \<Longrightarrow> c \<le> length s1 \<Longrightarrow> A ! r ! c = lcs_tab s1 s2 r c"
    using okA by (simp_all add: table_ok_def)
  define v where "v = (if s1 ! m = s2 ! R then A ! R ! m + 1
        else if A ! R ! Suc m \<ge> A ! Suc R ! m then A ! R ! Suc m
        else A ! Suc R ! m)"
  have cell: "align_cell s1 s2 (Suc R) A (Suc m) = A[Suc R := (A ! Suc R)[Suc m := v]]"
    by (simp add: align_cell_def v_def)
  have v: "v = lcs_tab s1 s2 (Suc R) (Suc m)"
    using filled [of R m] filled [of R "Suc m"] ih m by (simp add: v_def)
  have rowlen: "length (A ! Suc R) = Suc (length s1)" using rows [of "Suc R"] R by simp
  have ok': "table_ok s1 s2 (A[Suc R := (A ! Suc R)[Suc m := v]]) R"
    unfolding table_ok_def
  proof (intro conjI allI impI)
    show "length (A[Suc R := (A ! Suc R)[Suc m := v]]) = Suc (length s2)"
      using lenA by simp
  next
    fix r assume "r \<le> length s2"
    then show "length (A[Suc R := (A ! Suc R)[Suc m := v]] ! r) = Suc (length s1)"
      using rows [of r] lenA by (cases "r = Suc R") simp_all
  next
    fix r assume "r \<le> length s2"
    then show "A[Suc R := (A ! Suc R)[Suc m := v]] ! r ! 0 = 0"
      using rows [of r] lenA by (cases "r = Suc R") simp_all
  next
    fix r c assume "r \<le> R" "c \<le> length s1"
    then show "A[Suc R := (A ! Suc R)[Suc m := v]] ! r ! c = lcs_tab s1 s2 r c"
      using filled [of r c] by simp
  qed
  have new: "A[Suc R := (A ! Suc R)[Suc m := v]] ! Suc R ! c = lcs_tab s1 s2 (Suc R) c"
    if "c \<le> Suc m" for c
  proof (cases "c = Suc m")
    case True
    then show ?thesis using lenA R rowlen m v by simp
  next
    case False
    then have "c \<le> m" using that by simp
    then show ?thesis using lenA R ih False by simp
  qed
  show ?case unfolding step cell using ok' new by blast
qed

lemma align_row_ok:
  assumes "table_ok s1 s2 align R" and "Suc R \<le> length s2"
  shows "table_ok s1 s2 (align_row s1 s2 align (Suc R)) (Suc R)"
proof -
  have a: "table_ok s1 s2 (align_row s1 s2 align (Suc R)) R"
    and b: "\<forall>c\<le>length s1. align_row s1 s2 align (Suc R) ! Suc R ! c = lcs_tab s1 s2 (Suc R) c"
    using align_row_prefix [OF assms, of "length s1"] by (simp_all add: align_row_def)
  show ?thesis
    using a b unfolding table_ok_def by (auto simp: le_Suc_eq)
qed

lemma align_rows_prefix:
  "m \<le> length s2 \<Longrightarrow>
   table_ok s1 s2 (foldl (align_row s1 s2)
       (replicate (length s2 + 1) (replicate (length s1 + 1) 0)) [1..<Suc m]) m"
proof (induction m)
  case 0
  have "replicate (Suc (length s2)) (replicate (Suc (length s1)) (0::nat)) ! r = replicate (Suc (length s1)) 0"
    if "r \<le> length s2" for r
    using that by (intro nth_replicate) simp
  moreover have "replicate (Suc (length s1)) (0::nat) ! c = 0" if "c \<le> length s1" for c
    using that by (intro nth_replicate) simp
  ultimately show ?case by (simp add: table_ok_def del: replicate_Suc)
next
  case (Suc m)
  then show ?case using align_row_ok [of s1 s2 _ m] by simp
qed

lemma align_table_ok: "table_ok s1 s2 (align_table s1 s2) (length s2)"
  using align_rows_prefix [of "length s2" s2 s1] by (simp add: align_table_def)

lemma align_table_nth:
  "r \<le> length s2 \<Longrightarrow> c \<le> length s1 \<Longrightarrow> align_table s1 s2 ! r ! c = lcs_tab s1 s2 r c"
  using align_table_ok [of s1 s2] by (simp add: table_ok_def)

subsection \<open>The reconstruction loop\<close>

lemma drop_update_same: "n < length xs \<Longrightarrow> drop n (xs[n := x]) = x # drop (Suc n) xs"
  by (simp add: Cons_nth_drop_Suc [symmetric])

lemma backtrack_lcs_str:
  "\<forall>r'\<le>length s2. \<forall>c'\<le>length s1. align ! r' ! c' = lcs_tab s1 s2 r' c' \<Longrightarrow>
   r \<le> length s2 \<Longrightarrow> c \<le> length s1 \<Longrightarrow>
   lcs_tab s1 s2 r c \<le> MAX_LCS \<Longrightarrow> lcs_tab s1 s2 r c \<le> length buf \<Longrightarrow>
   backtrack align s2 r c (lcs_tab s1 s2 r c) buf =
     Some (Inr (lcs_str s1 s2 r c @ drop (lcs_tab s1 s2 r c) buf))"
proof (induction s1 s2 r c arbitrary: buf rule: lcs_str.induct)
  case (1 s1 s2 c)
  show ?case by (subst backtrack.simps) simp
next
  case (2 s1 s2 r)
  show ?case by (subst backtrack.simps) simp
next
  case (3 s1 s2 r c)
  define i where "i = lcs_tab s1 s2 (Suc r) (Suc c)"
  have r: "r \<le> length s2" "Suc r \<le> length s2" and c: "c \<le> length s1" "Suc c \<le> length s1"
    using "3.prems"(2,3) by simp_all
  have tab: "\<And>r' c'. r' \<le> length s2 \<Longrightarrow> c' \<le> length s1 \<Longrightarrow> align ! r' ! c' = lcs_tab s1 s2 r' c'"
    using "3.prems"(1) by blast
  have up: "align ! r ! Suc c = lcs_tab s1 s2 r (Suc c)"
    and left: "align ! Suc r ! c = lcs_tab s1 s2 (Suc r) c"
    and diag: "align ! r ! c = lcs_tab s1 s2 r c"
    using tab r c by simp_all
  have bound: "i \<le> MAX_LCS" "i \<le> length buf"
    using "3.prems"(4,5) by (simp_all add: i_def)
  have len: "length (lcs_str s1 s2 (Suc r) (Suc c)) = i"
    unfolding i_def by (rule length_lcs_str)
  show ?case
  proof (cases "i = 0")
    case True
    then have "lcs_str s1 s2 (Suc r) (Suc c) = []" using len by simp
    moreover have "backtrack align s2 (Suc r) (Suc c) i buf = Some (Inr buf)"
      by (subst backtrack.simps) (simp add: True)
    ultimately show ?thesis using True unfolding i_def [symmetric] by simp
  next
    case False
    consider (up) "lcs_tab s1 s2 r (Suc c) = i"
      | (left) "lcs_tab s1 s2 r (Suc c) \<noteq> i" "lcs_tab s1 s2 (Suc r) c = i"
      | (diag) "lcs_tab s1 s2 r (Suc c) \<noteq> i" "lcs_tab s1 s2 (Suc r) c \<noteq> i"
      by blast
    then show ?thesis
    proof cases
      case up
      have e: "lcs_tab s1 s2 r (Suc c) = lcs_tab s1 s2 (Suc r) (Suc c)"
        using up unfolding i_def .
      have s: "lcs_str s1 s2 (Suc r) (Suc c) = lcs_str s1 s2 r (Suc c)"
        using e by (simp del: lcs_tab.simps)
      have "backtrack align s2 (Suc r) (Suc c) i buf =
            backtrack align s2 r (Suc c) (lcs_tab s1 s2 r (Suc c)) buf"
        using False up by (subst backtrack.simps) (simp add: \<open>align ! r ! Suc c = _\<close>)
      also have "\<dots> = Some (Inr (lcs_str s1 s2 r (Suc c) @ drop (lcs_tab s1 s2 r (Suc c)) buf))"
      proof (rule "3.IH"(1) [OF e "3.prems"(1) r(1) c(2)])
        show "lcs_tab s1 s2 r (Suc c) \<le> MAX_LCS" using bound(1) up by simp
        show "lcs_tab s1 s2 r (Suc c) \<le> length buf" using bound(2) up by simp
      qed
      finally show ?thesis unfolding i_def [symmetric] s using up by simp
    next
      case left
      have e1: "lcs_tab s1 s2 r (Suc c) \<noteq> lcs_tab s1 s2 (Suc r) (Suc c)"
        and e2: "lcs_tab s1 s2 (Suc r) c = lcs_tab s1 s2 (Suc r) (Suc c)"
        using left unfolding i_def by blast+
      have s: "lcs_str s1 s2 (Suc r) (Suc c) = lcs_str s1 s2 (Suc r) c"
        using e1 e2 by (simp del: lcs_tab.simps)
      have "backtrack align s2 (Suc r) (Suc c) i buf =
            backtrack align s2 (Suc r) c (lcs_tab s1 s2 (Suc r) c) buf"
        using False left
        by (subst backtrack.simps)
          (simp add: \<open>align ! r ! Suc c = _\<close> \<open>align ! Suc r ! c = _\<close>)
      also have "\<dots> = Some (Inr (lcs_str s1 s2 (Suc r) c @ drop (lcs_tab s1 s2 (Suc r) c) buf))"
      proof (rule "3.IH"(2) [OF e1 e2 "3.prems"(1) r(2) c(1)])
        show "lcs_tab s1 s2 (Suc r) c \<le> MAX_LCS" using bound(1) left(2) by simp
        show "lcs_tab s1 s2 (Suc r) c \<le> length buf" using bound(2) left(2) by simp
      qed
      finally show ?thesis unfolding i_def [symmetric] s using left by simp
    next
      case diag
      have e1: "lcs_tab s1 s2 r (Suc c) \<noteq> lcs_tab s1 s2 (Suc r) (Suc c)"
        and e2: "lcs_tab s1 s2 (Suc r) c \<noteq> lcs_tab s1 s2 (Suc r) (Suc c)"
        using diag unfolding i_def by blast+
      have d: "s1 ! c = s2 ! r" "i = lcs_tab s1 s2 r c + 1"
        using lcs_tab_diag [OF e1 e2] unfolding i_def by blast+
      have s: "lcs_str s1 s2 (Suc r) (Suc c) = lcs_str s1 s2 r c @ [s2 ! r]"
        using e1 e2 by (simp del: lcs_tab.simps)
      define buf' where "buf' = buf[lcs_tab s1 s2 r c := s2 ! r]"
      have w: "lcs_write buf (i - 1) (s2 ! r) = Inr buf'"
        using bound d(2) by (simp add: lcs_write_def buf'_def)
      have "backtrack align s2 (Suc r) (Suc c) i buf =
            backtrack align s2 r c (lcs_tab s1 s2 r c) buf'"
        using False diag d(2) w
        by (subst backtrack.simps)
          (simp add: \<open>align ! r ! Suc c = _\<close> \<open>align ! Suc r ! c = _\<close> \<open>align ! r ! c = _\<close>)
      also have "\<dots> = Some (Inr (lcs_str s1 s2 r c @ drop (lcs_tab s1 s2 r c) buf'))"
      proof (rule "3.IH"(3) [OF e1 e2 "3.prems"(1) r(1) c(1)])
        show "lcs_tab s1 s2 r c \<le> MAX_LCS" using bound(1) d(2) by simp
        show "lcs_tab s1 s2 r c \<le> length buf'" using bound(2) d(2) by (simp add: buf'_def)
      qed
      also have "drop (lcs_tab s1 s2 r c) buf' = s2 ! r # drop i buf"
        using bound d(2) by (simp add: buf'_def drop_update_same)
      finally show ?thesis unfolding i_def [symmetric] s by simp
    qed
  qed
qed

lemma backtrack_returns:
  "\<forall>r'\<le>length s2. \<forall>c'\<le>length s1. align ! r' ! c' = lcs_tab s1 s2 r' c' \<Longrightarrow>
   r \<le> length s2 \<Longrightarrow> c \<le> length s1 \<Longrightarrow>
   \<exists>y. backtrack align s2 r c (lcs_tab s1 s2 r c) buf = Some y"
proof (induction s1 s2 r c arbitrary: buf rule: lcs_str.induct)
  case (1 s1 s2 c)
  show ?case by (subst backtrack.simps) simp
next
  case (2 s1 s2 r)
  show ?case by (subst backtrack.simps) simp
next
  case (3 s1 s2 r c)
  define i where "i = lcs_tab s1 s2 (Suc r) (Suc c)"
  have r: "r \<le> length s2" "Suc r \<le> length s2" and c: "c \<le> length s1" "Suc c \<le> length s1"
    using "3.prems"(2,3) by simp_all
  have up: "align ! r ! Suc c = lcs_tab s1 s2 r (Suc c)"
    and left: "align ! Suc r ! c = lcs_tab s1 s2 (Suc r) c"
    and diag: "align ! r ! c = lcs_tab s1 s2 r c"
    using "3.prems"(1) r c by simp_all
  show ?case
  proof (cases "i = 0")
    case True
    have "backtrack align s2 (Suc r) (Suc c) i buf = Some (Inr buf)"
      by (subst backtrack.simps) (simp add: True)
    then show ?thesis unfolding i_def by blast
  next
    case False
    consider (up) "lcs_tab s1 s2 r (Suc c) = i"
      | (left) "lcs_tab s1 s2 r (Suc c) \<noteq> i" "lcs_tab s1 s2 (Suc r) c = i"
      | (diag) "lcs_tab s1 s2 r (Suc c) \<noteq> i" "lcs_tab s1 s2 (Suc r) c \<noteq> i"
      by blast
    then show ?thesis
    proof cases
      case up
      have e: "lcs_tab s1 s2 r (Suc c) = lcs_tab s1 s2 (Suc r) (Suc c)"
        using up unfolding i_def .
      have "backtrack align s2 (Suc r) (Suc c) i buf =
            backtrack align s2 r (Suc c) (lcs_tab s1 s2 r (Suc c)) buf"
        using False up by (subst backtrack.simps) (simp add: \<open>align ! r ! Suc c = _\<close>)
      then show ?thesis
        using "3.IH"(1) [OF e "3.prems"(1) r(1) c(2), of buf] unfolding i_def by simp
    next
      case left
      have e1: "lcs_tab s1 s2 r (Suc c) \<noteq> lcs_tab s1 s2 (Suc r) (Suc c)"
        and e2: "lcs_tab s1 s2 (Suc r) c = lcs_tab s1 s2 (Suc r) (Suc c)"
        using left unfolding i_def by blast+
      have "backtrack align s2 (Suc r) (Suc c) i buf =
            backtrack align s2 (Suc r) c (lcs_tab s1 s2 (Suc r) c) buf"
        using False left
        by (subst backtrack.simps)
          (simp add: \<open>align ! r ! Suc c = _\<close> \<open>align ! Suc r ! c = _\<close>)
      then show ?thesis
        using "3.IH"(2) [OF e1 e2 "3.prems"(1) r(2) c(1), of buf] unfolding i_def by simp
    next
      case diag
      have e1: "lcs_tab s1 s2 r (Suc c) \<noteq> lcs_tab s1 s2 (Suc r) (Suc c)"
        and e2: "lcs_tab s1 s2 (Suc r) c \<noteq> lcs_tab s1 s2 (Suc r) (Suc c)"
        using diag unfolding i_def by blast+
      have d: "i = lcs_tab s1 s2 r c + 1"
        using lcs_tab_diag [OF e1 e2] unfolding i_def by blast
      have "backtrack align s2 (Suc r) (Suc c) i buf =
            (case lcs_write buf (i - 1) (s2 ! r) of
               Inl e \<Rightarrow> Some (Inl e)
             | Inr lcs' \<Rightarrow> backtrack align s2 r c (lcs_tab s1 s2 r c) lcs')"
        using False diag d
        by (subst backtrack.simps)
          (simp add: \<open>align ! r ! Suc c = _\<close> \<open>align ! Suc r ! c = _\<close> \<open>align ! r ! c = _\<close>
            split: sum.split)
      then show ?thesis
        using "3.IH"(3) [OF e1 e2 "3.prems"(1) r(1) c(1)] unfolding i_def
        by (cases "lcs_write buf (lcs_tab s1 s2 (Suc r) (Suc c) - 1) (s2 ! r)") simp_all
    qed
  qed
qed

lemma align_table_all:
  "\<forall>r'\<le>length s2. \<forall>c'\<le>length s1. align_table s1 s2 ! r' ! c' = lcs_tab s1 s2 r' c'"
  by (simp add: align_table_nth)

lemma takeWhile_terminated:
  "NUL \<notin> set z \<Longrightarrow> c_str (z @ NUL # rest) = z"
proof -
  assume "NUL \<notin> set z"
  then have "takeWhile (\<lambda>ch. ch \<noteq> NUL) (z @ NUL # rest) = z @ takeWhile (\<lambda>ch. ch \<noteq> NUL) (NUL # rest)"
    by (intro takeWhile_append2) auto
  then show ?thesis by (simp add: c_str_def)
qed

lemma subseq_set_subset: "subseq z b \<Longrightarrow> set z \<subseteq> set b"
  by (induction rule: list_emb.induct) auto

lemma longestCommonSubstring_fits:
  assumes "a \<noteq> []" and "b \<noteq> []" and "lenLCS a b < MAX_LCS" and "length buf = MAX_LCS"
  shows "longestCommonSubstring a b buf =
    Some (Inr (Lcs (lcs_str a b (length b) (length a) @ NUL # drop (Suc (lenLCS a b)) buf)))"
proof -
  define L where "L = lcs_tab a b (length b) (length a)"
  have L: "lenLCS a b = L" by (simp add: L_def lenLCS_lcs_tab)
  have al: "align_table a b ! length b ! length a = L"
    by (simp add: align_table_nth L_def)
  have w: "lcs_write buf L NUL = Inr (buf[L := NUL])"
    using assms(3) L by (simp add: lcs_write_def)
  have "backtrack (align_table a b) b (length b) (length a) L (buf[L := NUL]) =
      Some (Inr (lcs_str a b (length b) (length a) @ drop L (buf[L := NUL])))"
    unfolding L_def
    by (rule backtrack_lcs_str [OF align_table_all])
      (use assms(3,4) L in \<open>simp_all add: L_def\<close>)
  moreover have "drop L (buf[L := NUL]) = NUL # drop (Suc L) buf"
    using assms(3,4) L by (simp add: drop_update_same)
  ultimately show ?thesis
    using assms(1,2) w by (simp add: longestCommonSubstring_def Let_def al L)
qed

lemma longestCommonSubstring_too_long:
  assumes "a \<noteq> []" and "b \<noteq> []" and "MAX_LCS \<le> lenLCS a b"
  shows "longestCommonSubstring a b buf = Some (Inl BufferOverflow)"
proof -
  have "align_table a b ! length b ! length a = lenLCS a b"
    by (simp add: align_table_nth lenLCS_lcs_tab)
  then show ?thesis
    using assms by (simp add: longestCommonSubstring_def Let_def lcs_write_def)
qed

lemma subseq_replicate: "m \<le> n \<Longrightarrow> subseq (replicate m x) (replicate n x)"
proof -
  assume "m \<le> n"
  then have "replicate n x = replicate (n - m) x @ replicate m x"
    by (simp add: replicate_add [symmetric])
  then show ?thesis by (simp add: subseq_drop_many)
qed

lemma lenLCS_replicate: "lenLCS (replicate m x) (replicate n x) = min m n"
proof -
  have "is_lcs_length (replicate m x) (replicate n x) (min m n)"
    unfolding is_lcs_length_def
  proof (intro conjI allI impI exI [of _ "replicate (min m n) x"])
    fix w assume "subseq w (replicate m x) \<and> subseq w (replicate n x)"
    then show "length w \<le> min m n" by (auto dest: list_emb_length)
  qed (simp_all add: subseq_replicate)
  then show ?thesis by (rule is_lcs_length_unique [OF lenLCS_is_lcs_length])
qed

section \<open>Rounding to binary floating point\<close>

lemma round_even_upper: "of_int (round_even y) \<le> y + 1 / 2"
  unfolding round_even_def Let_def by (auto simp: not_less) linarith+

lemma round_even_lower: "y - 1 / 2 \<le> of_int (round_even y)"
  unfolding round_even_def Let_def by (auto simp: not_less) linarith+

lemma round_even_of_int [simp]: "round_even (of_int n) = n"
  by (simp add: round_even_def)

lemma round_even_ge: "of_int m - 1 / 2 < y \<Longrightarrow> m \<le> round_even y"
proof -
  assume "of_int m - 1 / 2 < y"
  then have "of_int m - 1 < (of_int (round_even y) :: real)"
    using round_even_lower [of y] by linarith
  then have "m - 1 < round_even y" by linarith
  then show ?thesis by simp
qed

lemma round_even_le: "y < of_int m + 1 / 2 \<Longrightarrow> round_even y \<le> m"
proof -
  assume "y < of_int m + 1 / 2"
  then have "(of_int (round_even y) :: real) < of_int m + 1"
    using round_even_upper [of y] by linarith
  then have "round_even y < m + 1" by linarith
  then show ?thesis by simp
qed

lemma round_even_mono: "x \<le> y \<Longrightarrow> round_even x \<le> round_even y"
proof -
  assume xy: "x \<le> y"
  then have f: "\<lfloor>x\<rfloor> \<le> \<lfloor>y\<rfloor>" by (rule floor_mono)
  show ?thesis
  proof (cases "\<lfloor>x\<rfloor> = \<lfloor>y\<rfloor>")
    case True
    then show ?thesis using xy unfolding round_even_def Let_def by auto
  next
    case False
    then have "\<lfloor>x\<rfloor> + 1 \<le> \<lfloor>y\<rfloor>" using f by simp
    moreover have "round_even x \<le> \<lfloor>x\<rfloor> + 1" unfolding round_even_def Let_def by auto
    moreover have "\<lfloor>y\<rfloor> \<le> round_even y" unfolding round_even_def Let_def by auto
    ultimately show ?thesis by linarith
  qed
qed

lemma powr_int_nat: "2 powr (of_int j + real n) = 2 powr of_int j * 2 ^ n"
  by (simp add: powr_add powr_realpow)

lemma round_to_binade:
  assumes q: "q = 2 powr of_int j" and lo: "q * 2 ^ (p - 1) \<le> y" and hi: "y < q * 2 ^ p"
    and p: "1 \<le> p"
  shows "round_to p y = q * of_int (round_even (y / q))"
proof -
  have qpos: "0 < q" using q by simp
  have "0 < q * 2 ^ (p - 1)" using qpos by simp
  then have ypos: "0 < y" using lo by linarith
  have e1: "(of_int (j + int p - 1) :: real) = of_int j + real (p - 1)" using p by simp
  have a: "2 powr of_int (j + int p - 1) = q * 2 ^ (p - 1)"
    unfolding e1 q by (rule powr_int_nat)
  have e2: "(of_int (j + int p - 1 + 1) :: real) = of_int j + real p" using p by simp
  have b: "2 powr of_int (j + int p - 1 + 1) = q * 2 ^ p"
    unfolding e2 q by (rule powr_int_nat)
  have "\<lfloor>log 2 y\<rfloor> = j + int p - 1"
  proof -
    have two: "(1::real) < 2" by simp
    note iff = floor_log_eq_powr_iff [OF ypos two, of "j + int p - 1", unfolded a b]
    show ?thesis using iff lo hi by blast
  qed
  then have "\<lfloor>log 2 \<bar>y\<bar>\<rfloor> - int p + 1 = j" using ypos by simp
  then show ?thesis using ypos unfolding round_to_def Let_def q by simp
qed

lemma binade_exists:
  fixes y :: real
  assumes "0 < y" and "1 \<le> p"
  shows "\<exists>j. 2 powr of_int j * 2 ^ (p - 1) \<le> y \<and> y < 2 powr of_int j * 2 ^ p"
proof -
  define k where "k = \<lfloor>log 2 y\<rfloor>"
  have two: "(1::real) < 2" by simp
  have k: "2 powr of_int k \<le> y \<and> y < 2 powr of_int (k + 1)"
    using floor_log_eq_powr_iff [OF assms(1) two, of k] unfolding k_def by blast
  define j where "j = k - int p + 1"
  have e1: "(of_int k :: real) = of_int j + real (p - 1)" using assms(2) by (simp add: j_def)
  have a: "2 powr of_int j * 2 ^ (p - 1) = (2::real) powr of_int k"
    unfolding e1 by (rule powr_int_nat [symmetric])
  have e2: "(of_int (k + 1) :: real) = of_int j + real p" using assms(2) by (simp add: j_def)
  have b: "2 powr of_int j * 2 ^ p = (2::real) powr of_int (k + 1)"
    unfolding e2 by (rule powr_int_nat [symmetric])
  have "2 powr of_int j * 2 ^ (p - 1) \<le> y \<and> y < 2 powr of_int j * 2 ^ p"
    unfolding a b using k .
  then show ?thesis by (rule exI)
qed

lemma pow2_step:
  assumes "j < j'" and "1 \<le> p"
  shows "2 powr of_int j * 2 ^ p \<le> (2::real) powr of_int j' * 2 ^ (p - 1)"
proof -
  have "(2::real) powr (of_int j + 1) \<le> 2 powr of_int j'"
    using assms(1) by (intro powr_mono) simp_all
  then have "2 * 2 powr of_int j \<le> (2::real) powr of_int j'"
    by (simp add: powr_add)
  then have "2 * 2 powr of_int j * 2 ^ (p - 1) \<le> (2::real) powr of_int j' * 2 ^ (p - 1)"
    by (intro mult_right_mono) simp_all
  moreover have "(2::real) ^ p = 2 * 2 ^ (p - 1)"
    using assms(2) by (cases p) simp_all
  ultimately show ?thesis by simp
qed

lemma round_even_pow2 [simp]: "round_even (2 ^ n) = 2 ^ n"
  using round_even_of_int [of "2 ^ n"] by simp

lemma round_to_in_binade:
  assumes q: "q = 2 powr of_int j" and lo: "q * 2 ^ (p - 1) \<le> y" and hi: "y < q * 2 ^ p"
    and p: "1 \<le> p"
  shows "q * 2 ^ (p - 1) \<le> round_to p y" and "round_to p y \<le> q * 2 ^ p"
proof -
  have qpos: "0 < q" using q by simp
  have r: "round_to p y = q * of_int (round_even (y / q))"
    by (rule round_to_binade [OF q lo hi p])
  have "2 ^ (p - 1) \<le> y / q" using lo qpos by (simp add: pos_le_divide_eq mult.commute)
  then have "round_even (2 ^ (p - 1)) \<le> round_even (y / q)"
    by (rule round_even_mono)
  then have "(2::int) ^ (p - 1) \<le> round_even (y / q)" by simp
  then have "(2::real) ^ (p - 1) \<le> of_int (round_even (y / q))"
    by (metis of_int_le_iff of_int_numeral of_int_power)
  then show "q * 2 ^ (p - 1) \<le> round_to p y"
    unfolding r using qpos by simp
  have "y / q \<le> 2 ^ p" using hi qpos by (simp add: pos_divide_le_eq mult.commute)
  then have "round_even (y / q) \<le> round_even (2 ^ p)"
    by (rule round_even_mono)
  then have "round_even (y / q) \<le> (2::int) ^ p" by simp
  then have "of_int (round_even (y / q)) \<le> (2::real) ^ p"
    by (metis of_int_le_iff of_int_numeral of_int_power)
  then show "round_to p y \<le> q * 2 ^ p"
    unfolding r using qpos by simp
qed

lemma round_to_mono:
  assumes "0 < x" and "x \<le> y" and p: "1 \<le> p"
  shows "round_to p x \<le> round_to p y"
proof -
  have ypos: "0 < y" using assms by linarith
  obtain jx where jx: "2 powr of_int jx * 2 ^ (p - 1) \<le> x" "x < 2 powr of_int jx * 2 ^ p"
    using binade_exists [OF assms(1) p] by blast
  obtain jy where jy: "2 powr of_int jy * 2 ^ (p - 1) \<le> y" "y < 2 powr of_int jy * 2 ^ p"
    using binade_exists [OF ypos p] by blast
  consider "jx = jy" | "jx < jy" | "jy < jx" by linarith
  then show ?thesis
  proof cases
    case 1
    define q :: real where "q = 2 powr of_int jx"
    have qpos: "0 < q" by (simp add: q_def)
    have rx: "round_to p x = q * of_int (round_even (x / q))"
      using round_to_binade [OF q_def _ _ p, of x] jx by (simp add: q_def)
    have ry: "round_to p y = q * of_int (round_even (y / q))"
      using round_to_binade [OF q_def _ _ p, of y] jy 1 by (simp add: q_def)
    have "x / q \<le> y / q" using assms(2) qpos by (simp add: divide_right_mono)
    then have "round_even (x / q) \<le> round_even (y / q)" by (rule round_even_mono)
    then show ?thesis unfolding rx ry using qpos by simp
  next
    case 2
    have "round_to p x \<le> 2 powr of_int jx * 2 ^ p"
      by (rule round_to_in_binade(2) [OF refl jx p])
    also have "\<dots> \<le> 2 powr of_int jy * 2 ^ (p - 1)" by (rule pow2_step [OF 2 p])
    also have "\<dots> \<le> round_to p y"
      by (rule round_to_in_binade(1) [OF refl jy p])
    finally show ?thesis .
  next
    case 3
    have "y < 2 powr of_int jy * 2 ^ p" by (rule jy(2))
    also have "\<dots> \<le> 2 powr of_int jx * 2 ^ (p - 1)" by (rule pow2_step [OF 3 p])
    also have "\<dots> \<le> x" by (rule jx(1))
    finally show ?thesis using assms(2) by simp
  qed
qed

lemma round_to_grid:
  assumes q: "q = 2 powr of_int j" and K: "2 ^ (p - 1) \<le> K" "K \<le> 2 ^ p" and p: "1 \<le> p"
  shows "round_to p (q * of_int K) = q * of_int K"
proof (cases "K = 2 ^ p")
  case False
  then have K2: "K < 2 ^ p" using K(2) by simp
  have qpos: "0 < q" using q by simp
  have "(2::real) ^ (p - 1) \<le> of_int K"
    using K(1) by (metis of_int_le_iff of_int_numeral of_int_power)
  then have lo: "q * 2 ^ (p - 1) \<le> q * of_int K" using qpos by simp
  have "of_int K < (2::real) ^ p"
    using K2 by (metis of_int_less_iff of_int_numeral of_int_power)
  then have hi: "q * of_int K < q * 2 ^ p" using qpos by simp
  show ?thesis
    using round_to_binade [OF q lo hi p] qpos by simp
next
  case True
  define q' :: real where "q' = 2 powr of_int (j + 1)"
  have q': "q' = 2 * q" by (simp add: q'_def q powr_add)
  have qpos: "0 < q" using q by simp
  have pp: "(2::real) ^ p = 2 * 2 ^ (p - 1)" using p by (cases p) simp_all
  have v: "q * of_int K = q' * 2 ^ (p - 1)" by (simp add: True q' pp)
  have lo: "q' * 2 ^ (p - 1) \<le> q' * 2 ^ (p - 1)" by simp
  have hi: "q' * 2 ^ (p - 1) < q' * 2 ^ p" using qpos by (simp add: q' pp)
  have "round_to p (q' * 2 ^ (p - 1)) = q' * of_int (round_even (2 ^ (p - 1)))"
    using round_to_binade [OF q'_def lo hi p] qpos by (simp add: q')
  then show ?thesis unfolding v by simp
qed

lemma round_to_succ:
  assumes q: "q = 2 powr of_int j" and K: "2 ^ (p - 1) \<le> K" "K < 2 ^ p" and p: "1 \<le> p"
    and t: "round_to p t = t" and gt: "q * of_int K < t"
  shows "q * of_int (K + 1) \<le> t"
proof (cases "t < q * 2 ^ p")
  case True
  have qpos: "0 < q" using q by simp
  have "(2::real) ^ (p - 1) \<le> of_int K"
    using K(1) by (metis of_int_le_iff of_int_numeral of_int_power)
  then have "q * 2 ^ (p - 1) \<le> q * of_int K" using qpos by simp
  then have lo: "q * 2 ^ (p - 1) \<le> t" using gt by linarith
  have "t = q * of_int (round_even (t / q))"
    using round_to_binade [OF q lo True p] t by simp
  then have "q * of_int K < q * of_int (round_even (t / q))" using gt by simp
  then have "K < round_even (t / q)" using qpos by simp
  then have "K + 1 \<le> round_even (t / q)" by simp
  then have "(of_int (K + 1) :: real) \<le> of_int (round_even (t / q))" by (simp only: of_int_le_iff)
  then have "q * of_int (K + 1) \<le> q * of_int (round_even (t / q))" using qpos by simp
  then show ?thesis using \<open>t = q * of_int (round_even (t / q))\<close> by simp
next
  case False
  have qpos: "0 < q" using q by simp
  have "K + 1 \<le> 2 ^ p" using K(2) by simp
  then have "(of_int (K + 1) :: real) \<le> 2 ^ p"
    by (metis of_int_le_iff of_int_numeral of_int_power)
  then have "q * of_int (K + 1) \<le> q * 2 ^ p" using qpos by simp
  then show ?thesis using False by linarith
qed

lemma round_to_error:
  assumes "0 < y" and p: "1 \<le> p"
  shows "\<bar>round_to p y - y\<bar> \<le> y / 2 ^ p"
proof -
  obtain j where j: "2 powr of_int j * 2 ^ (p - 1) \<le> y" "y < 2 powr of_int j * 2 ^ p"
    using binade_exists [OF assms] by blast
  define q :: real where "q = 2 powr of_int j"
  have qpos: "0 < q" by (simp add: q_def)
  have r: "round_to p y = q * of_int (round_even (y / q))"
    using round_to_binade [OF q_def _ _ p, of y] j by (simp add: q_def)
  have "\<bar>of_int (round_even (y / q)) - y / q\<bar> \<le> 1 / 2"
    using round_even_upper [of "y / q"] round_even_lower [of "y / q"] by linarith
  then have "q * \<bar>of_int (round_even (y / q)) - y / q\<bar> \<le> q * (1 / 2)"
    using qpos by (intro mult_left_mono) simp_all
  moreover have "q * \<bar>of_int (round_even (y / q)) - y / q\<bar> = \<bar>round_to p y - y\<bar>"
  proof -
    have "q * \<bar>of_int (round_even (y / q)) - y / q\<bar> = \<bar>q * (of_int (round_even (y / q)) - y / q)\<bar>"
      using qpos by (simp add: abs_mult)
    also have "q * (of_int (round_even (y / q)) - y / q) = round_to p y - y"
      using qpos by (simp add: r right_diff_distrib)
    finally show ?thesis .
  qed
  moreover have "q * (1 / 2) \<le> y / 2 ^ p"
  proof -
    have pp: "(2::real) ^ p = 2 * 2 ^ (p - 1)" using p by (cases p) simp_all
    have "q * 2 ^ (p - 1) \<le> y" using j(1) by (simp add: q_def)
    then have "q * 2 ^ (p - 1) / 2 ^ p \<le> y / 2 ^ p" by (intro divide_right_mono) simp_all
    then show ?thesis by (simp add: pp)
  qed
  ultimately show ?thesis by linarith
qed

lemma round_to_pos:
  assumes "0 < y" and p: "1 \<le> p"
  shows "0 < round_to p y"
proof -
  obtain j where j: "2 powr of_int j * 2 ^ (p - 1) \<le> y" "y < 2 powr of_int j * 2 ^ p"
    using binade_exists [OF assms] by blast
  have "0 < (2::real) powr of_int j * 2 ^ (p - 1)" by simp
  also have "\<dots> \<le> round_to p y" by (rule round_to_in_binade(1) [OF refl j p])
  finally show ?thesis .
qed

lemma round_even_tie: "even m \<Longrightarrow> round_even (of_int m + 1 / 2) = m"
proof -
  assume e: "even m"
  have f: "\<lfloor>(of_int m :: real) + 1 / 2\<rfloor> = m" by linarith
  show ?thesis unfolding round_even_def Let_def f using e by simp
qed

lemma reciprocal_lower:
  assumes x: "0 < x"
  shows "x * (1 - 1 / 2 ^ 24) < binary64 (1 / binary32 (1 / x))"
proof -
  define g where "g = binary32 (1 / x)"
  define u :: real where "u = 1 / 2 ^ 24"
  define v :: real where "v = 1 / 2 ^ 53"
  have ix: "0 < 1 / x" using x by simp
  have gpos: "0 < g" unfolding g_def binary32_def by (rule round_to_pos [OF ix]) simp
  have "\<bar>g - 1 / x\<bar> \<le> (1 / x) / 2 ^ 24"
    unfolding g_def binary32_def by (rule round_to_error [OF ix]) simp
  then have "g \<le> 1 / x + (1 / x) * u" by (simp add: u_def)
  also have "1 / x + (1 / x) * u = (1 + u) / x" by (simp add: add_divide_distrib)
  finally have "g \<le> (1 + u) / x" .
  then have "g * x \<le> 1 + u" using x by (simp add: pos_le_divide_eq)
  then have gx: "x \<le> (1 + u) / g" using gpos by (simp add: pos_le_divide_eq mult.commute)
  have ig: "0 < 1 / g" using gpos by simp
  define d where "d = binary64 (1 / g)"
  have "\<bar>d - 1 / g\<bar> \<le> (1 / g) / 2 ^ 53"
    unfolding d_def binary64_def by (rule round_to_error [OF ig]) simp
  then have dl: "(1 / g) * (1 - v) \<le> d" by (simp add: v_def field_simps)
  have upos: "0 < u" "u < 1" by (simp_all add: u_def)
  have uv: "(1 - u) * (1 + u) < 1 - v" by (simp add: u_def v_def)
  have "x * (1 - u) \<le> (1 + u) / g * (1 - u)"
    using gx upos by (intro mult_right_mono) simp_all
  also have "\<dots> = (1 / g) * ((1 - u) * (1 + u))" by simp
  also have "\<dots> < (1 / g) * (1 - v)"
    using uv ig by (intro mult_strict_left_mono)
  also have "\<dots> \<le> d" by (rule dl)
  finally show ?thesis by (simp add: u_def d_def g_def)
qed

text \<open>
  The value that the length test computes for a shorter first name is the doubly
  rounded reciprocal of a rounded quotient. It can lie below the rounded quotient of
  the shorter by the longer length, but no \<open>float\<close> lies strictly between the two.
\<close>

lemma round_even_numeral [simp]: "round_even (numeral n) = numeral n"
  using round_even_of_int [of "numeral n"] by simp

lemma reciprocal_adjacent:
  assumes x: "0 < x"
    and t: "binary32 t = t"
    and lt: "binary32 (binary64 (1 / binary32 (1 / x))) < t"
  shows "binary32 x \<le> t"
proof -
  define d where "d = binary64 (1 / binary32 (1 / x))"
  have p: "(1::nat) \<le> 24" by simp
  have dx: "x * (1 - 1 / 2 ^ 24) < d" unfolding d_def by (rule reciprocal_lower [OF x])
  have dpos: "0 < d"
  proof -
    have "0 \<le> x * (1 - 1 / 2 ^ 24)" using x by simp
    then show ?thesis using dx by linarith
  qed
  have lt': "round_to 24 d < t" using lt by (simp add: d_def binary32_def)
  have t': "round_to 24 t = t" using t by (simp add: binary32_def)
  obtain j where j: "2 powr of_int j * 2 ^ (24 - 1) \<le> x" "x < 2 powr of_int j * 2 ^ 24"
    using binade_exists [OF x p] by blast
  define q :: real where "q = 2 powr of_int j"
  have qpos: "0 < q" by (simp add: q_def)
  have xlo: "q * 2 ^ (24 - 1) \<le> x" and xhi: "x < q * 2 ^ 24" using j by (simp_all add: q_def)
  define X where "X = x / q"
  define D where "D = d / q"
  define N where "N = round_even X"
  have s0: "round_to 24 x = q * of_int N"
    unfolding N_def X_def by (rule round_to_binade [OF q_def xlo xhi p])
  have Xlo: "8388608 \<le> X" using xlo qpos by (simp add: X_def pos_le_divide_eq mult.commute)
  have Xhi: "X < 16777216" using xhi qpos by (simp add: X_def pos_divide_less_eq mult.commute)
  have "x * (1 - 1 / 2 ^ 24) / q < d / q" using dx qpos by (rule divide_strict_right_mono)
  then have DX: "X - X / 16777216 < D" by (simp add: X_def D_def field_simps)
  have Nup: "of_int N \<le> X + 1 / 2" unfolding N_def by (rule round_even_upper)
  have Nlo: "8388608 \<le> N"
  proof -
    have "round_even (2 ^ 23) \<le> round_even X" using Xlo by (intro round_even_mono) simp
    then show ?thesis by (simp add: N_def)
  qed
  have Nhi: "N \<le> 16777216"
  proof -
    have "round_even X \<le> round_even (2 ^ 24)" using Xhi by (intro round_even_mono) simp
    then show ?thesis by (simp add: N_def)
  qed
  have goal: "q * of_int N \<le> t" if "q * of_int K < t" and "N \<le> K + 1" and "8388608 \<le> K"
    and "K < 16777216" for K
  proof -
    have "q * of_int (K + 1) \<le> t"
      by (rule round_to_succ [OF q_def _ _ p t' that(1)]) (use that in simp_all)
    moreover have "q * of_int N \<le> q * of_int (K + 1)"
      using that(2) qpos by (simp only: mult_le_cancel_left_pos of_int_le_iff)
    ultimately show ?thesis by linarith
  qed
  consider (above) "q * 2 ^ 24 \<le> d" | (same) "q * 2 ^ (24 - 1) \<le> d" "d < q * 2 ^ 24"
    | (below) "d < q * 2 ^ (24 - 1)" by linarith
  then have "q * of_int N \<le> t"
  proof cases
    case above
    have "q * of_int (2 ^ 24) = round_to 24 (q * of_int (2 ^ 24))"
      by (rule round_to_grid [OF q_def _ _ p, symmetric]) simp_all
    also have "\<dots> \<le> round_to 24 d"
      using above qpos by (intro round_to_mono) simp_all
    finally have "q * 16777216 \<le> round_to 24 d" by simp
    moreover have "q * of_int N \<le> q * 16777216"
      using Nhi qpos by simp
    ultimately show ?thesis using lt' by linarith
  next
    case same
    define M where "M = round_even D"
    have r: "round_to 24 d = q * of_int M"
      unfolding M_def D_def by (rule round_to_binade [OF q_def same p])
    have Dlo: "8388608 \<le> D" using same(1) qpos by (simp add: D_def pos_le_divide_eq mult.commute)
    have Dhi: "D < 16777216" using same(2) qpos by (simp add: D_def pos_divide_less_eq mult.commute)
    have Mlo: "8388608 \<le> M"
    proof -
      have "round_even (2 ^ 23) \<le> round_even D" using Dlo by (intro round_even_mono) simp
      then show ?thesis by (simp add: M_def)
    qed
    have "D - 1 / 2 \<le> of_int M" unfolding M_def by (rule round_even_lower)
    then have "(of_int N :: real) - 2 < of_int M" using DX Nup Xhi by linarith
    then have NM: "N \<le> M + 1" by linarith
    show ?thesis
    proof (cases "N \<le> M")
      case True
      then have "q * of_int N \<le> q * of_int M"
        using qpos by (simp only: mult_le_cancel_left_pos of_int_le_iff)
      then show ?thesis using lt' r by linarith
    next
      case False
      then have "M < 16777216" using Nhi by linarith
      then show ?thesis using goal [of M] lt' r NM Mlo by simp
    qed
  next
    case below
    define q' :: real where "q' = 2 powr of_int (j - 1)"
    have q': "q = 2 * q'"
    proof -
      have e: "(of_int j :: real) = of_int (j - 1) + real 1" by simp
      show ?thesis unfolding q_def q'_def e powr_int_nat by simp
    qed
    have q'pos: "0 < q'" by (simp add: q'_def)
    have Dhi: "D < 8388608" using below qpos by (simp add: D_def pos_divide_less_eq mult.commute)
    have D2: "16777215 < 2 * D" using DX Xlo by linarith
    have dq': "d / q' = 2 * D" using q'pos by (simp add: D_def q')
    have lo': "q' * 2 ^ (24 - 1) \<le> d"
    proof -
      have "8388608 \<le> d / q'" using D2 dq' by linarith
      then show ?thesis using q'pos by (simp add: pos_le_divide_eq mult.commute)
    qed
    have hi': "d < q' * 2 ^ 24"
    proof -
      have "d / q' < 16777216" using Dhi dq' by linarith
      then show ?thesis using q'pos by (simp add: pos_divide_less_eq mult.commute)
    qed
    define M where "M = round_even (d / q')"
    have r: "round_to 24 d = q' * of_int M"
      unfolding M_def by (rule round_to_binade [OF q'_def lo' hi' p])
    have Mlo: "16777215 \<le> M"
      unfolding M_def using D2 dq' by (intro round_even_ge) simp
    have "q' * of_int (16777215::int) \<le> q' * of_int M"
      using Mlo q'pos by (simp only: mult_le_cancel_left_pos of_int_le_iff)
    then have "q' * of_int (16777215::int) < t" using lt' r by linarith
    then have "q' * of_int (16777215 + 1) \<le> t"
      by (intro round_to_succ [OF q'_def _ _ p t']) simp_all
    then have t1: "q * 8388608 \<le> t" by (simp add: q')
    show ?thesis
    proof (cases "N \<le> 8388608")
      case True
      then have "q * of_int N \<le> q * of_int (8388608::int)"
        using qpos by (simp only: mult_le_cancel_left_pos of_int_le_iff)
      then show ?thesis using t1 by simp
    next
      case False
      have Xhalf: "8388608 + 1 / 2 < X"
      proof (rule ccontr)
        assume "\<not> 8388608 + 1 / 2 < X"
        then have "X \<le> of_int 8388608 + 1 / 2" by simp
        then have "round_even X \<le> round_even (of_int 8388608 + 1 / 2)" by (rule round_even_mono)
        also have "\<dots> = 8388608" by (rule round_even_tie) simp
        finally show False using False by (simp add: N_def)
      qed
      have "16777216 - 1 / 2 < 2 * D" using DX Xhalf Xhi by linarith
      then have "16777216 \<le> M"
        unfolding M_def dq' by (intro round_even_ge) simp
      then have "q' * of_int (16777216::int) \<le> q' * of_int M"
        using q'pos by (simp only: mult_le_cancel_left_pos of_int_le_iff)
      then have "q * of_int (8388608::int) < t" using lt' r by (simp add: q')
      moreover have "N \<le> 8388608 + 1"
      proof -
        have "X < 8388609" using DX Dhi Xhi by linarith
        then have "(of_int N :: real) < 8388610" using Nup by linarith
        then show ?thesis by linarith
      qed
      ultimately show ?thesis using goal [of 8388608] by simp
    qed
  qed
  then show ?thesis by (simp add: binary32_def s0)
qed

lemma pow2_neg: "2 powr of_int (- int n) = 1 / (2::real) ^ n"
proof -
  have "(of_int (- int n) :: real) = - real n" by simp
  then have "2 powr of_int (- int n) = inverse ((2::real) powr real n)"
    by (simp only: powr_minus)
  then show ?thesis by (simp add: powr_realpow inverse_eq_divide)
qed

lemma round_to_fraction:
  assumes p: "1 \<le> p" and lo: "2 ^ (p - 1) \<le> y * 2 ^ n" and hi: "y * 2 ^ n < 2 ^ p"
  shows "round_to p y = of_int (round_even (y * 2 ^ n)) / 2 ^ n"
proof -
  define q :: real where "q = 1 / 2 ^ n"
  have q: "q = 2 powr of_int (- int n)" unfolding q_def by (rule pow2_neg [symmetric])
  have qpos: "0 < q" by (simp add: q_def)
  have yq: "y / q = y * 2 ^ n" by (simp add: q_def)
  have "q * 2 ^ (p - 1) \<le> q * (y * 2 ^ n)" using lo qpos by (simp only: mult_le_cancel_left_pos)
  then have lo': "q * 2 ^ (p - 1) \<le> y" by (simp add: q_def)
  have "q * (y * 2 ^ n) < q * 2 ^ p" using hi qpos by (simp only: mult_less_cancel_left_pos)
  then have hi': "y < q * 2 ^ p" by (simp add: q_def)
  show ?thesis
    using round_to_binade [OF q lo' hi' p] by (simp add: yq q_def)
qed

lemma binary32_1 [simp]: "binary32 1 = 1"
  unfolding binary32_def
  by (subst round_to_fraction [where n = 23]) simp_all

lemma binary32_3_4: "binary32 (3 / 4) = 3 / 4"
  unfolding binary32_def
  by (subst round_to_fraction [where n = 24]) (simp_all add: round_even_def)

lemma binary32_7_8: "binary32 (7 / 8) = 7 / 8"
  unfolding binary32_def
  by (subst round_to_fraction [where n = 24]) (simp_all add: round_even_def)

lemma binary32_8_7: "binary32 (8 / 7) = 9586981 / 8388608"
  unfolding binary32_def
  by (subst round_to_fraction [where n = 23]) (simp_all add: round_even_def)

lemma binary64_recip_8_7:
  "binary64 (1 / (9586981 / 8388608)) = 7881298995576848 / 9007199254740992"
  unfolding binary64_def
  by (subst round_to_fraction [where n = 53]) (simp_all add: round_even_def)

lemma binary32_recip_8_7:
  "binary32 (7881298995576848 / 9007199254740992) = 14680063 / 16777216"
  unfolding binary32_def
  by (subst round_to_fraction [where n = 24]) (simp_all add: round_even_def)

lemma binary32_3_5: "binary32 (3 / 5) = 10066330 / 16777216"
  unfolding binary32_def
  by (subst round_to_fraction [where n = 24]) (simp_all add: round_even_def)

lemma binary32_0 [simp]: "binary32 0 = 0"
  by (simp add: binary32_def round_to_def)

section \<open>Properties of similarityMetric\<close>

lemma binary32_mono: "0 \<le> x \<Longrightarrow> x \<le> y \<Longrightarrow> binary32 x \<le> binary32 y"
proof (cases "x = 0")
  case True
  assume "0 \<le> x" and "x \<le> y"
  then have "0 \<le> binary32 y"
    using round_to_pos [of y 24] True
    by (cases "y = 0") (simp_all add: binary32_def round_to_def less_imp_le)
  then show ?thesis using True by simp
next
  case False
  assume "0 \<le> x" and "x \<le> y"
  then show ?thesis
    using False unfolding binary32_def by (intro round_to_mono) simp_all
qed

lemma float_div_7_8: "float_div 8 7 = Fin (9586981 / 8388608)"
  by (simp add: float_div_def binary32_8_7)

lemma binary64_8388608_9586981:
  "binary64 (8388608 / 9586981) = 492581187223553 / 562949953421312"
  unfolding binary64_def
  by (subst round_to_fraction [where n = 53]) (simp_all add: round_even_def)

lemma binary32_492581187223553:
  "binary32 (492581187223553 / 562949953421312) = 14680063 / 16777216"
  unfolding binary32_def
  by (subst round_to_fraction [where n = 24]) (simp_all add: round_even_def)

lemma greatestPossibleSimilarity_7_8:
  "greatestPossibleSimilarity 7 8 = Fin (14680063 / 16777216)"
  by (simp add: greatestPossibleSimilarity_def float_div_7_8 float_gt_def float_recip_def
      binary64_8388608_9586981 binary32_492581187223553)

lemma similarityMetric_bound:
  "\<exists>s. similarityMetric a b = Inr s \<and> 0 \<le> s \<and>
       s * real (max (length a) (length b)) \<le> real (min (length a) (length b))"
proof (cases "a = [] \<or> b = []")
  case True
  then show ?thesis by (auto simp: similarityMetric_longer)
next
  case False
  have "lenLCS a b \<le> min (length a) (length b)"
    using is_lcs_length_le [OF lenLCS_is_lcs_length] .
  then have "real (lenLCS a b) \<le> real (min (length a) (length b))"
    by (rule of_nat_mono)
  moreover have "real (max (length a) (length b)) > 0" using False by (simp add: max_def)
  ultimately show ?thesis using False
    by (simp add: similarityMetric_longer)
qed

lemma ratio_pruned:
  assumes t: "binary32 t = t"
    and pr: "float_lt (greatestPossibleSimilarity P Q) t"
    and q0: "0 \<le> q" and q: "q * real (max P Q) \<le> real (min P Q)"
  shows "binary32 q \<le> t"
proof (cases "P = 0 \<or> Q = 0")
  case True
  then have t0: "0 < t"
    using pr
    by (auto simp: greatestPossibleSimilarity_def float_div_def float_gt_def float_recip_def
        float_lt_def Let_def split: if_splits)
  have "P \<noteq> 0 \<or> Q \<noteq> 0"
  proof (rule ccontr)
    assume "\<not> (P \<noteq> 0 \<or> Q \<noteq> 0)"
    then have "greatestPossibleSimilarity P Q = NaN"
      by (simp add: greatestPossibleSimilarity_def float_div_def float_gt_def)
    then show False using pr by (simp add: float_lt_def)
  qed
  then have mx: "0 < real (max P Q)" and mn: "real (min P Q) = 0" using True by auto
  have "q = 0"
  proof (rule ccontr)
    assume "q \<noteq> 0"
    then have "0 < q" using q0 by simp
    then have "0 < q * real (max P Q)" using mx by (rule mult_pos_pos)
    then show False using q mn by linarith
  qed
  then show ?thesis using t0 by simp
next
  case False
  then have P: "0 < real P" and Q: "0 < real Q" by simp_all
  define g where "g = binary32 (real Q / real P)"
  have fd: "float_div Q P = Fin g" using False by (simp add: float_div_def g_def)
  have mx: "0 < real (max P Q)" using P by (simp add: max_def)
  have qr: "q \<le> real (min P Q) / real (max P Q)" using q mx by (simp add: pos_le_divide_eq)
  show ?thesis
  proof (cases "g > 1")
    case True
    have gne: "g \<noteq> 0" using True by simp
    have lt: "binary32 (binary64 (1 / g)) < t"
      using pr True gne
      by (simp add: greatestPossibleSimilarity_def fd float_gt_def float_recip_def float_lt_def)
    have PQ: "P < Q"
    proof (rule ccontr)
      assume "\<not> P < Q"
      then have "real Q / real P \<le> 1" using P by simp
      then have "g \<le> binary32 1" unfolding g_def using Q P by (intro binary32_mono) simp_all
      then show False using True by simp
    qed
    have x: "0 < real P / real Q" using P Q by simp
    have "1 / (real P / real Q) = real Q / real P" by simp
    then have "binary32 (binary64 (1 / binary32 (1 / (real P / real Q)))) < t"
      using lt by (simp only: g_def)
    then have "binary32 (real P / real Q) \<le> t" by (rule reciprocal_adjacent [OF x t])
    moreover have "q \<le> real P / real Q" using qr PQ by (simp add: min_def max_def)
    then have "binary32 q \<le> binary32 (real P / real Q)" using q0 by (intro binary32_mono)
    ultimately show ?thesis by linarith
  next
    case False
    have lt: "g < t"
      using pr False
      by (simp add: greatestPossibleSimilarity_def fd float_gt_def float_lt_def)
    have "real (min P Q) / real (max P Q) \<le> real Q / real P"
      using P Q by (intro frac_le) simp_all
    then have "q \<le> real Q / real P" using qr by linarith
    then have "binary32 q \<le> g" unfolding g_def using q0 by (intro binary32_mono)
    then show ?thesis using lt by linarith
  qed
qed

lemma prune_sound:
  assumes "binary32 t = t"
    and "float_lt (greatestPossibleSimilarity (length a) (length b)) t"
    and "similarityMetric a b = Inr q"
  shows "binary32 q \<le> t"
proof -
  have "0 \<le> q \<and> q * real (max (length a) (length b)) \<le> real (min (length a) (length b))"
    using similarityMetric_bound [of a b] assms(3) by auto
  then show ?thesis using ratio_pruned [OF assms(1,2)] by blast
qed

text \<open>
  C7: when either argument is the empty string, in either position, \<open>similarityMetric\<close>
  returns the value 0 (through the early return, so no division takes place and the
  result is a number).
\<close>

theorem similarityMetric_empty:
  "similarityMetric s [] = Inr 0 \<and> similarityMetric [] s = Inr 0"
  by (simp add: similarityMetric_def Let_def)

text \<open>
  C6: a non-empty string compared with itself scores exactly 1.
\<close>

theorem similarityMetric_self: "s \<noteq> [] \<Longrightarrow> similarityMetric s s = Inr 1"
  using is_lcs_length_same [OF lenLCS_is_lcs_length, of s]
  by (simp add: similarityMetric_longer)

theorem similarityMetric_self_witness:
  "''count'' \<noteq> [] \<and> similarityMetric ''count'' ''count'' = Inr 1"
  using similarityMetric_self [of "''count''"] by simp

lemma buffer_fer: "similarityMetric ''buffer'' ''fer'' = Inr (1 / 2)"
  by code_simp

lemma fer_buffer: "similarityMetric ''fer'' ''buffer'' = Inr (1 / 2)"
  by code_simp

text \<open>
  C2: for non-empty strings \<open>similarityMetric\<close> returns \<open>L / len1\<close>, where \<open>L\<close> is the
  length of a longest common subsequence of the two strings and \<open>len1\<close> the length of
  the longer one; for \<open>buffer\<close> and \<open>fer\<close> this is 3/6, not the value 2 * 3 / (6 + 3) of
  the doubled-matches-over-total formula.
\<close>

theorem similarityMetric_lcs_ratio:
  "(a \<noteq> [] \<and> b \<noteq> [] \<longrightarrow>
      (\<exists>L. is_lcs_length a b L \<and>
           similarityMetric a b = Inr (real L / real (max (length a) (length b))))) \<and>
   similarityMetric ''buffer'' ''fer'' = Inr (3 / 6) \<and>
   similarityMetric ''buffer'' ''fer'' \<noteq> Inr (2 * 3 / (6 + 3))"
proof -
  have "\<exists>L. is_lcs_length a b L \<and>
           similarityMetric a b = Inr (real L / real (max (length a) (length b)))"
    if "a \<noteq> []" and "b \<noteq> []"
    using lenLCS_is_lcs_length [of a b] that by (auto simp: similarityMetric_longer)
  then show ?thesis by (simp add: buffer_fer)
qed

theorem similarityMetric_lcs_ratio_witness:
  "''ALEXANDRE'' \<noteq> [] \<and> ''ALEKSANDER'' \<noteq> [] \<and>
   (\<exists>L. is_lcs_length ''ALEXANDRE'' ''ALEKSANDER'' L \<and>
        similarityMetric ''ALEXANDRE'' ''ALEKSANDER'' = Inr (real L / 10))"
  using similarityMetric_lcs_ratio [of "''ALEXANDRE''" "''ALEKSANDER''"] by simp

text \<open>
  C3 (as amended): the quotient \<open>L / len1\<close> that \<open>similarityMetric\<close> rounds never
  exceeds the ratio of the shorter length to the longer length, and a pair that the
  length test of \<open>processNames\<close> skips for a \<open>float\<close> threshold \<open>t\<close> never has a score
  above \<open>t\<close>. The inequality between the two computed values is not part of the
  statement: the ratio that the test computes can be one \<open>float\<close> below the score.
\<close>

theorem prune_no_false_negative:
  "\<exists>q. similarityMetric a b = Inr q \<and>
       q * real (max (length a) (length b)) \<le> real (min (length a) (length b)) \<and>
       (a \<noteq> [] \<or> b \<noteq> [] \<longrightarrow> q \<le> real (min (length a) (length b)) / real (max (length a) (length b))) \<and>
       (\<forall>t. binary32 t = t \<and> float_lt (greatestPossibleSimilarity (length a) (length b)) t \<longrightarrow>
            \<not> binary32 q > t)"
proof -
  obtain q where q: "similarityMetric a b = Inr q"
    "q * real (max (length a) (length b)) \<le> real (min (length a) (length b))"
    using similarityMetric_bound [of a b] by blast
  have "q \<le> real (min (length a) (length b)) / real (max (length a) (length b))"
    if "a \<noteq> [] \<or> b \<noteq> []"
  proof -
    have "real (max (length a) (length b)) > 0" using that by (auto simp: max_def)
    then show ?thesis using q(2) by (simp add: pos_le_divide_eq)
  qed
  moreover have "\<not> binary32 q > t"
    if "binary32 t = t \<and> float_lt (greatestPossibleSimilarity (length a) (length b)) t" for t
    using prune_sound [of t a b q] that q(1) by simp
  ultimately show ?thesis using q by blast
qed

theorem prune_no_false_negative_witness:
  "binary32 (7 / 8) = 7 / 8 \<and>
   float_lt (greatestPossibleSimilarity (length ''abcdefg'') (length ''abcdefgh'')) (7 / 8) \<and>
   (\<exists>q. similarityMetric ''abcdefg'' ''abcdefgh'' = Inr q \<and> q * 8 \<le> 7 \<and> q \<le> 7 / 8 \<and>
        \<not> binary32 q > 7 / 8)"
proof -
  have len: "length ''abcdefg'' = 7" "length ''abcdefgh'' = 8" by simp_all
  have p: "float_lt (greatestPossibleSimilarity (length ''abcdefg'') (length ''abcdefgh'')) (7 / 8)"
    unfolding len greatestPossibleSimilarity_7_8 by (simp add: float_lt_def)
  obtain q where q: "similarityMetric ''abcdefg'' ''abcdefgh'' = Inr q"
    "q * real (max (length ''abcdefg'') (length ''abcdefgh''))
       \<le> real (min (length ''abcdefg'') (length ''abcdefgh''))"
    "''abcdefg'' \<noteq> [] \<or> ''abcdefgh'' \<noteq> [] \<longrightarrow>
       q \<le> real (min (length ''abcdefg'') (length ''abcdefgh''))
            / real (max (length ''abcdefg'') (length ''abcdefgh''))"
    "\<forall>t. binary32 t = t \<and>
         float_lt (greatestPossibleSimilarity (length ''abcdefg'') (length ''abcdefgh'')) t \<longrightarrow>
         \<not> binary32 q > t"
    using prune_no_false_negative [of "''abcdefg''" "''abcdefgh''"] by blast
  have "\<not> binary32 q > 7 / 8" using q(4) binary32_7_8 p by blast
  moreover have "q * 8 \<le> 7" "q \<le> 7 / 8" using q(2,3) by simp_all
  ultimately show ?thesis using q(1) p binary32_7_8 by blast
qed

lemma binary32_2_3: "binary32 (2 / 3) = 11184811 / 16777216"
  unfolding binary32_def
  by (subst round_to_fraction [where n = 24]) (simp_all add: round_even_def)

text \<open>
  A name of 7 characters followed by a name of 8 characters that contains it: the
  ratio that the length test computes is below the score. A name of 2 characters
  and a name of 3 characters that contains it: the score, rounded up to a \<open>float\<close>,
  is above the exact ratio 2/3 of the lengths.
\<close>

theorem prune_ratio_below_score:
  "greatestPossibleSimilarity (length ''abcdefg'') (length ''abcdefgh'')
     = Fin (14680063 / 16777216) \<and>
   similarityMetric ''abcdefg'' ''abcdefgh'' = Inr (7 / 8) \<and>
   binary32 (7 / 8) = 7 / 8 \<and>
   \<not> (7 / 8 \<le> (14680063 / 16777216 :: real)) \<and>
   similarityMetric ''ab'' ''abc'' = Inr (2 / 3) \<and>
   \<not> (binary32 (2 / 3) \<le> 2 / 3)"
proof -
  have len: "length ''abcdefg'' = 7" "length ''abcdefgh'' = 8" by simp_all
  have "similarityMetric ''abcdefg'' ''abcdefgh'' = Inr (7 / 8)" by code_simp
  moreover have "\<not> (7 / 8 \<le> (14680063 / 16777216 :: real))" by simp
  moreover have "similarityMetric ''ab'' ''abc'' = Inr (2 / 3)" by code_simp
  moreover have "\<not> (binary32 (2 / 3) \<le> 2 / 3)" by (simp add: binary32_2_3)
  ultimately show ?thesis unfolding len greatestPossibleSimilarity_7_8 binary32_7_8 by blast
qed

text \<open>
  C4: the documentation of \<open>similarityMetric\<close> says that the order of the two strings
  is significant, with 0.5 for \<open>(buffer, fer)\<close> and 1.0 for \<open>(fer, buffer)\<close>. The code
  gives 1/2 for both orders, and the same score for both orders of any two strings.
\<close>

theorem similarityMetric_symmetric:
  "similarityMetric a b = similarityMetric b a \<and>
   similarityMetric ''buffer'' ''fer'' = Inr (1 / 2) \<and>
   similarityMetric ''fer'' ''buffer'' = Inr (1 / 2)"
  using similarityMetric_commute [of a b] buffer_fer fer_buffer by simp

section \<open>Properties of longestCommonSubstring\<close>

text \<open>
  C10: on the table built for two non-empty strings the reconstruction loop returns;
  at every cell with a positive entry one of the three tests of the loop body
  succeeds, and each of them lowers the row index or the column index.
\<close>

theorem backtrack_terminates:
  assumes "a \<noteq> []" and "b \<noteq> []"
  shows "(\<exists>y. backtrack (align_table a b) b (length b) (length a)
              (align_table a b ! length b ! length a) lcs = Some y) \<and>
         (\<exists>y. longestCommonSubstring a b lcs = Some y) \<and>
         (\<forall>r c. 0 < r \<and> r \<le> length b \<and> 0 < c \<and> c \<le> length a \<and> 0 < align_table a b ! r ! c \<longrightarrow>
            align_table a b ! (r - 1) ! c = align_table a b ! r ! c \<or>
            align_table a b ! r ! (c - 1) = align_table a b ! r ! c \<or>
            align_table a b ! (r - 1) ! (c - 1) = align_table a b ! r ! c - 1)"
proof (intro conjI allI impI)
  have al: "align_table a b ! length b ! length a = lcs_tab a b (length b) (length a)"
    by (simp add: align_table_nth)
  show ret: "\<exists>y. backtrack (align_table a b) b (length b) (length a)
              (align_table a b ! length b ! length a) lcs = Some y" for lcs
    unfolding al by (rule backtrack_returns [OF align_table_all]) simp_all
  show "\<exists>y. longestCommonSubstring a b lcs = Some y"
  proof (cases "lcs_write lcs (align_table a b ! length b ! length a) NUL")
    case (Inl e)
    then show ?thesis using assms by (simp add: longestCommonSubstring_def Let_def)
  next
    case (Inr lcs0)
    obtain y where "backtrack (align_table a b) b (length b) (length a)
              (align_table a b ! length b ! length a) lcs0 = Some y"
      using ret [of lcs0] by blast
    then show ?thesis using assms Inr
      by (cases y) (simp_all add: longestCommonSubstring_def Let_def)
  qed
next
  fix r c
  assume h: "0 < r \<and> r \<le> length b \<and> 0 < c \<and> c \<le> length a \<and> 0 < align_table a b ! r ! c"
  then obtain r' c' where rc: "r = Suc r'" "c = Suc c'"
    by (cases r; cases c) auto
  have t: "align_table a b ! r' ! Suc c' = lcs_tab a b r' (Suc c')"
    "align_table a b ! Suc r' ! c' = lcs_tab a b (Suc r') c'"
    "align_table a b ! r' ! c' = lcs_tab a b r' c'"
    "align_table a b ! Suc r' ! Suc c' = lcs_tab a b (Suc r') (Suc c')"
    using h rc by (simp_all add: align_table_nth)
  show "align_table a b ! (r - 1) ! c = align_table a b ! r ! c \<or>
            align_table a b ! r ! (c - 1) = align_table a b ! r ! c \<or>
            align_table a b ! (r - 1) ! (c - 1) = align_table a b ! r ! c - 1"
    unfolding rc
  proof (cases "lcs_tab a b r' (Suc c') = lcs_tab a b (Suc r') (Suc c') \<or>
                lcs_tab a b (Suc r') c' = lcs_tab a b (Suc r') (Suc c')")
    case True
    then show "align_table a b ! (Suc r' - 1) ! Suc c' = align_table a b ! Suc r' ! Suc c' \<or>
            align_table a b ! Suc r' ! (Suc c' - 1) = align_table a b ! Suc r' ! Suc c' \<or>
            align_table a b ! (Suc r' - 1) ! (Suc c' - 1) = align_table a b ! Suc r' ! Suc c' - 1"
      using t by (auto simp del: lcs_tab.simps)
  next
    case False
    then have "lcs_tab a b (Suc r') (Suc c') = lcs_tab a b r' c' + 1"
      using lcs_tab_diag [of a b r' c'] by blast
    then show "align_table a b ! (Suc r' - 1) ! Suc c' = align_table a b ! Suc r' ! Suc c' \<or>
            align_table a b ! Suc r' ! (Suc c' - 1) = align_table a b ! Suc r' ! Suc c' \<or>
            align_table a b ! (Suc r' - 1) ! (Suc c' - 1) = align_table a b ! Suc r' ! Suc c' - 1"
      using t by (simp del: lcs_tab.simps)
  qed
qed

theorem backtrack_terminates_witness:
  "''buffer'' \<noteq> [] \<and> ''fer'' \<noteq> [] \<and>
   (\<exists>y. backtrack (align_table ''buffer'' ''fer'') ''fer'' (length ''fer'') (length ''buffer'')
           (align_table ''buffer'' ''fer'' ! length ''fer'' ! length ''buffer'')
           (replicate MAX_LCS NUL) = Some y) \<and>
   (\<exists>y. longestCommonSubstring ''buffer'' ''fer'' (replicate MAX_LCS NUL) = Some y) \<and>
   (align_table ''buffer'' ''fer'' ! 2 ! 5 = align_table ''buffer'' ''fer'' ! 3 ! 5 \<or>
    align_table ''buffer'' ''fer'' ! 3 ! 4 = align_table ''buffer'' ''fer'' ! 3 ! 5 \<or>
    align_table ''buffer'' ''fer'' ! 2 ! 4 = align_table ''buffer'' ''fer'' ! 3 ! 5 - 1)"
proof -
  have p: "0 < align_table ''buffer'' ''fer'' ! 3 ! 5" by code_simp
  have ne: "''buffer'' \<noteq> []" "''fer'' \<noteq> []" by simp_all
  note t = backtrack_terminates [OF ne, of "replicate MAX_LCS NUL"]
  have "align_table ''buffer'' ''fer'' ! (3 - 1) ! 5 = align_table ''buffer'' ''fer'' ! 3 ! 5 \<or>
    align_table ''buffer'' ''fer'' ! 3 ! (5 - 1) = align_table ''buffer'' ''fer'' ! 3 ! 5 \<or>
    align_table ''buffer'' ''fer'' ! (3 - 1) ! (5 - 1) = align_table ''buffer'' ''fer'' ! 3 ! 5 - 1"
    using t [THEN conjunct2, THEN conjunct2, rule_format, of 3 5] p by simp
  then show ?thesis using t ne by (intro conjI) simp_all
qed

text \<open>
  Within the capacity of the static array: for non-empty C strings whose longest
  common subsequence is shorter than \<open>MAX_LCS\<close>, the call returns the static array,
  the string stored there is a subsequence of both arguments, and its length is the
  length that the rolling program of \<open>similarityMetric\<close> computes, in either argument
  order.
\<close>

theorem longestCommonSubstring_common_subsequence:
  assumes "a \<noteq> []" and "b \<noteq> []" and "NUL \<notin> set a" and "NUL \<notin> set b"
    and "lenLCS a b < MAX_LCS" and "length lcs = MAX_LCS"
  shows "\<exists>lcs'. longestCommonSubstring a b lcs = Some (Inr (Lcs lcs')) \<and>
           subseq (c_str lcs') a \<and> subseq (c_str lcs') b \<and>
           length (c_str lcs') = lenLCS a b \<and> length (c_str lcs') = lenLCS b a \<and>
           similarityMetric a b =
             Inr (real (length (c_str lcs')) / real (max (length a) (length b)))"
proof -
  define z where "z = lcs_str a b (length b) (length a)"
  define lcs' where "lcs' = z @ NUL # drop (Suc (lenLCS a b)) lcs"
  have r: "longestCommonSubstring a b lcs = Some (Inr (Lcs lcs'))"
    using longestCommonSubstring_fits [OF assms(1,2,5,6)] by (simp add: lcs'_def z_def)
  have sa: "subseq z a" using lcs_str_subseq1 [of "length a" a b "length b"] by (simp add: z_def)
  have sb: "subseq z b" using lcs_str_subseq2 [of "length b" b a "length a"] by (simp add: z_def)
  have "NUL \<notin> set z" using subseq_set_subset [OF sb] assms(4) by blast
  then have c: "c_str lcs' = z" unfolding lcs'_def by (rule takeWhile_terminated)
  have len: "length z = lenLCS a b" by (simp add: z_def length_lcs_str lenLCS_lcs_tab)
  show ?thesis
    using r sa sb len lenLCS_commute [of a b] assms(1,2)
    by (simp add: c similarityMetric_longer)
qed

theorem longestCommonSubstring_common_subsequence_witness:
  "''buffer'' \<noteq> [] \<and> ''fer'' \<noteq> [] \<and> NUL \<notin> set ''buffer'' \<and> NUL \<notin> set ''fer'' \<and>
   lenLCS ''buffer'' ''fer'' < MAX_LCS \<and> length (replicate MAX_LCS CHR ''x'') = MAX_LCS \<and>
   (\<exists>lcs'. longestCommonSubstring ''buffer'' ''fer'' (replicate MAX_LCS CHR ''x'') = Some (Inr (Lcs lcs')) \<and>
           subseq (c_str lcs') ''buffer'' \<and> subseq (c_str lcs') ''fer'' \<and>
           length (c_str lcs') = lenLCS ''buffer'' ''fer'' \<and>
           length (c_str lcs') = lenLCS ''fer'' ''buffer'' \<and>
           similarityMetric ''buffer'' ''fer'' = Inr (real (length (c_str lcs')) / 6))"
proof -
  have h: "NUL \<notin> set ''buffer''" "NUL \<notin> set ''fer''" by (simp_all add: NUL_def)
  have l: "lenLCS ''buffer'' ''fer'' < MAX_LCS"
    using is_lcs_length_le [OF lenLCS_is_lcs_length, of "''buffer''" "''fer''"]
    by (simp add: MAX_LCS_def)
  show ?thesis
    using longestCommonSubstring_common_subsequence
      [of "''buffer''" "''fer''" "replicate MAX_LCS CHR ''x''", OF _ _ h l]
    using h l by simp
qed

text \<open>
  C5: the string that \<open>longestCommonSubstring\<close> returns should be a subsequence of
  both arguments, of the length that the rolling program of \<open>similarityMetric\<close>
  computes. For a string of 256 and a string of 300 characters \<open>n\<close> that length is
  256, the documented maximum; the terminator is then written outside the static
  array and the call returns no string.
\<close>

theorem longestCommonSubstring_no_string_beyond_capacity:
  "replicate 256 CHR ''n'' \<noteq> [] \<and> replicate 300 CHR ''n'' \<noteq> [] \<and>
   lenLCS (replicate 256 CHR ''n'') (replicate 300 CHR ''n'') = MAX_LCS \<and>
   longestCommonSubstring (replicate 256 CHR ''n'') (replicate 300 CHR ''n'')
     (replicate MAX_LCS NUL) = Some (Inl BufferOverflow)"
proof -
  have "longestCommonSubstring (replicate 256 CHR ''n'') (replicate 300 CHR ''n'')
     (replicate MAX_LCS NUL) = Some (Inl BufferOverflow)"
    by (rule longestCommonSubstring_too_long) (simp_all add: lenLCS_replicate MAX_LCS_def)
  then show ?thesis by (simp add: lenLCS_replicate MAX_LCS_def)
qed

text \<open>
  C8: when either argument is empty the call returns the empty result of
  \<^verbatim>\<open>return 0\<close>, the null pointer, which carries no characters.
\<close>

theorem longestCommonSubstring_empty:
  "a = [] \<or> b = [] \<Longrightarrow> longestCommonSubstring a b lcs = Some (Inr Null)"
  by (auto simp: longestCommonSubstring_def)

theorem longestCommonSubstring_empty_witness:
  "(''fer'' = [] \<or> ([]::string) = []) \<and>
   longestCommonSubstring ''fer'' [] (replicate MAX_LCS NUL) = Some (Inr Null)"
  using longestCommonSubstring_empty [of "''fer''" "[]" "replicate MAX_LCS NUL"] by simp

text \<open>
  C9: every write into \<open>lcs\<close> should be at an index below \<open>MAX_LCS\<close>. For two equal
  names of 256 characters the first write, that of the terminator, is at index 256.
\<close>

theorem longestCommonSubstring_overflow:
  "align_table (replicate 256 CHR ''a'') (replicate 256 CHR ''a'') ! 256 ! 256 = 256 \<and>
   lcs_write lcs 256 NUL = Inl BufferOverflow \<and>
   longestCommonSubstring (replicate 256 CHR ''a'') (replicate 256 CHR ''a'') lcs
     = Some (Inl BufferOverflow)"
proof (intro conjI)
  have "align_table (replicate 256 CHR ''a'') (replicate 256 CHR ''a'')
          ! length (replicate 256 CHR ''a'') ! length (replicate 256 CHR ''a'') =
        lenLCS (replicate 256 CHR ''a'') (replicate 256 CHR ''a'')"
    by (simp only: align_table_nth lenLCS_lcs_tab order_refl)
  then show "align_table (replicate 256 CHR ''a'') (replicate 256 CHR ''a'') ! 256 ! 256 = 256"
    by (simp add: lenLCS_replicate)
  show "lcs_write lcs 256 NUL = Inl BufferOverflow"
    by (simp add: lcs_write_def MAX_LCS_def)
  show "longestCommonSubstring (replicate 256 CHR ''a'') (replicate 256 CHR ''a'') lcs
     = Some (Inl BufferOverflow)"
    by (rule longestCommonSubstring_too_long) (simp_all add: lenLCS_replicate MAX_LCS_def)
qed

section \<open>Properties of processNames\<close>

lemma inner_loop_compare_all:
  "inner_loop t x i_index js j0 st = compare_all t (map (Pair x) (drop (i_index - j0) js)) st"
proof (induction js arbitrary: j0 st)
  case Nil
  show ?case by simp
next
  case (Cons j js)
  show ?case
  proof (cases "j0 + 1 \<le> i_index")
    case True
    then have "drop (i_index - j0) (j # js) = drop (i_index - (j0 + 1)) js"
      by (simp add: drop_Cons')
    then show ?thesis using True Cons.IH [of "j0 + 1" st] by simp
  next
    case False
    then have d: "i_index - j0 = 0" "i_index - (j0 + 1) = 0" by simp_all
    show ?thesis
      using False Cons.IH [of "j0 + 1"] unfolding d
      by (simp split: option.split sum.split)
  qed
qed

lemma compare_all_append:
  "compare_all t (ps @ qs) st =
     (case compare_all t ps st of
        None \<Rightarrow> None
      | Some (Inl e) \<Rightarrow> Some (Inl e)
      | Some (Inr st') \<Rightarrow> compare_all t qs st')"
  by (induction t ps st rule: compare_all.induct) (simp_all split: option.split sum.split)

lemma outer_loop_compare_all:
  "outer_loop t nameList xs k st = compare_all t (pairs_after nameList xs k) st"
proof (induction xs arbitrary: k st)
  case Nil
  show ?case by simp
next
  case (Cons x xs)
  show ?case
    using Cons.IH [of "k + 1"] inner_loop_compare_all [of t x "k + 1" nameList 0 st]
    by (simp add: compare_all_append split: option.split sum.split)
qed

lemma filter_less_upt: "filter (\<lambda>j. k < j) [0..<n] = [Suc k..<n]"
  by (induction n) auto

lemma visited_from:
  "filter (\<lambda>(i, j). \<not> j + 1 \<le> i + 1) (List.product [k..<n] [0..<n]) =
     concat (map (\<lambda>i. map (Pair i) [Suc i..<n]) [k..<n])"
proof (induction "n - k" arbitrary: k)
  case 0
  then show ?case by simp
next
  case (Suc d)
  then have k: "k < n" and d: "d = n - Suc k" by simp_all
  have u: "[k..<n] = k # [Suc k..<n]" using k by (simp add: upt_conv_Cons)
  have "filter (\<lambda>(i, j). \<not> j + 1 \<le> i + 1) (map (Pair k) [0..<n]) = map (Pair k) [Suc k..<n]"
    using filter_less_upt [of k n] by (simp add: filter_map comp_def not_le)
  then show ?case unfolding u using Suc.hyps(1) [OF d] by simp
qed

lemma visited_concat: "visited n = concat (map (\<lambda>i. map (Pair i) [Suc i..<n]) [0..<n])"
  unfolding visited_def by (rule visited_from)

lemma drop_map_nth: "k \<le> length xs \<Longrightarrow> drop k xs = map ((!) xs) [k..<length xs]"
  by (rule nth_equalityI) simp_all

lemma pairs_after_indices:
  "k \<le> length names \<Longrightarrow>
   pairs_after names (drop k names) k =
     map (\<lambda>(i, j). (names ! i, names ! j))
       (concat (map (\<lambda>i. map (Pair i) [Suc i..<length names]) [k..<length names]))"
proof (induction "length names - k" arbitrary: k)
  case 0
  then show ?case by simp
next
  case (Suc d)
  then have k: "k < length names" and d: "d = length names - Suc k" by simp_all
  have u: "[k..<length names] = k # [Suc k..<length names]" using k by (simp add: upt_conv_Cons)
  have dr: "drop k names = names ! k # drop (Suc k) names"
    using k by (simp add: Cons_nth_drop_Suc)
  have "map (Pair (names ! k)) (drop (Suc k) names) =
        map (\<lambda>(i, j). (names ! i, names ! j)) (map (Pair k) [Suc k..<length names])"
    using k by (simp add: drop_map_nth comp_def)
  then show ?case
    unfolding u dr using Suc.hyps(1) [OF d] k by simp
qed

lemma processNames_compare_all:
  "processNames t names lcs =
     compare_all t (map (\<lambda>(i, j). (names ! i, names ! j)) (visited (length names))) ([], lcs)"
  using pairs_after_indices [of 0 names]
  by (simp add: processNames_def outer_loop_compare_all visited_concat)

lemma set_visited: "set (visited n) = {(i, j). i < j \<and> j < n}"
  by (auto simp: visited_def)

lemma distinct_visited: "distinct (visited n)"
  by (simp add: visited_def distinct_product)

lemma sorted_product:
  "sorted_wrt (<) xs \<Longrightarrow> sorted_wrt (<) ys \<Longrightarrow> sorted_wrt visit_before (List.product xs ys)"
proof (induction xs)
  case Nil
  show ?case by simp
next
  case (Cons x xs)
  have "sorted_wrt visit_before (map (Pair x) ys)"
    using Cons.prems(2) by (simp add: sorted_wrt_map visit_before_def)
  moreover have "sorted_wrt visit_before (List.product xs ys)"
    using Cons by simp
  moreover have "\<forall>p\<in>set (map (Pair x) ys). \<forall>q\<in>set (List.product xs ys). visit_before p q"
    using Cons.prems(1) by (auto simp: visit_before_def)
  ultimately show ?case by (simp add: sorted_wrt_append)
qed

lemma sorted_visited: "sorted_wrt visit_before (visited n)"
  unfolding visited_def
  by (intro sorted_wrt_filter sorted_product) (simp_all add: sorted_wrt_upt)
  
lemma length_visited_from:
  "k \<le> n \<Longrightarrow>
   2 * length (concat (map (\<lambda>i. map (Pair i) [Suc i..<n]) [k..<n])) = (n - k) * (n - k - 1)"
proof (induction "n - k" arbitrary: k)
  case 0
  then show ?case by simp
next
  case (Suc d)
  then have k: "k < n" and d: "d = n - Suc k" by simp_all
  have u: "[k..<n] = k # [Suc k..<n]" using k by (simp add: upt_conv_Cons)
  have nk: "n - k = Suc d" using Suc.hyps(2) by simp
  have ih: "2 * length (concat (map (\<lambda>i. map (Pair i) [Suc i..<n]) [Suc k..<n])) = d * (d - 1)"
    using Suc.hyps(1) [OF d] k d by simp
  have "2 * d + d * (d - 1) = Suc d * d" by (cases d) simp_all
  then show ?case unfolding u nk using ih d by simp
qed

lemma length_visited: "length (visited n) = n * (n - 1) div 2"
  using length_visited_from [of 0 n] by (simp add: visited_concat)

lemma compare_pair_result:
  assumes t: "binary32 t = t"
    and ok: "exceeds t (name x) (name y) \<Longrightarrow>
       name x \<noteq> [] \<and> name y \<noteq> [] \<and> lenLCS (name x) (name y) < MAX_LCS"
    and len: "length lcs = MAX_LCS"
  shows "\<exists>lcs'. length lcs' = MAX_LCS \<and>
           compare_pair t x y (res, lcs) =
             Some (Inr (if exceeds t (name x) (name y) then res @ [(x, y)] else res, lcs'))"
proof -
  obtain q where q: "similarityMetric (name x) (name y) = Inr q"
    using similarityMetric_bound [of "name x" "name y"] by blast
  show ?thesis
  proof (cases "float_lt (greatestPossibleSimilarity (length (name x)) (length (name y))) t")
    case True
    then have "\<not> exceeds t (name x) (name y)"
      using prune_sound [OF t True q] by (simp add: exceeds_def q)
    then show ?thesis using True len by (simp add: compare_pair_def)
  next
    case False
    show ?thesis
    proof (cases "binary32 q > t")
      case gt: True
      then have ex: "exceeds t (name x) (name y)" by (simp add: exceeds_def q)
      have ne: "name x \<noteq> []" "name y \<noteq> []"
        and small: "lenLCS (name x) (name y) < MAX_LCS"
        using ok [OF ex] by simp_all
      define lcs' where "lcs' = lcs_str (name x) (name y) (length (name y)) (length (name x))
          @ NUL # drop (Suc (lenLCS (name x) (name y))) lcs"
      have r: "longestCommonSubstring (name x) (name y) lcs = Some (Inr (Lcs lcs'))"
        using longestCommonSubstring_fits [OF ne small len] by (simp add: lcs'_def)
      have "length lcs' = MAX_LCS"
        using small len by (simp add: lcs'_def length_lcs_str lenLCS_lcs_tab)
      then show ?thesis using False gt ex r q by (simp add: compare_pair_def)
    next
      case le: False
      then have "\<not> exceeds t (name x) (name y)" by (simp add: exceeds_def q)
      then show ?thesis using False le q len by (simp add: compare_pair_def)
    qed
  qed
qed

lemma compare_all_result:
  assumes t: "binary32 t = t"
  shows "\<forall>p\<in>set ps. exceeds t (name (fst p)) (name (snd p)) \<longrightarrow>
            name (fst p) \<noteq> [] \<and> name (snd p) \<noteq> [] \<and>
            lenLCS (name (fst p)) (name (snd p)) < MAX_LCS \<Longrightarrow>
     length lcs = MAX_LCS \<Longrightarrow>
     \<exists>lcs'. length lcs' = MAX_LCS \<and>
       compare_all t ps (res, lcs) =
         Some (Inr (res @ filter (\<lambda>p. exceeds t (name (fst p)) (name (snd p))) ps, lcs'))"
proof (induction ps arbitrary: res lcs)
  case Nil
  then show ?case by simp
next
  case (Cons p ps)
  obtain x y where p: "p = (x, y)" by (cases p)
  have ok: "exceeds t (name x) (name y) \<Longrightarrow>
       name x \<noteq> [] \<and> name y \<noteq> [] \<and> lenLCS (name x) (name y) < MAX_LCS"
    using Cons.prems(1) p by simp
  from compare_pair_result [OF t ok Cons.prems(2), of res]
  obtain lcs1 where l1: "length lcs1 = MAX_LCS"
    and c: "compare_pair t x y (res, lcs) =
             Some (Inr (if exceeds t (name x) (name y) then res @ [(x, y)] else res, lcs1))"
    by blast
  have rest: "\<forall>p\<in>set ps. exceeds t (name (fst p)) (name (snd p)) \<longrightarrow>
            name (fst p) \<noteq> [] \<and> name (snd p) \<noteq> [] \<and>
            lenLCS (name (fst p)) (name (snd p)) < MAX_LCS"
    using Cons.prems(1) by simp
  from Cons.IH [OF rest l1, of "if exceeds t (name x) (name y) then res @ [(x, y)] else res"]
  show ?case unfolding p by (auto simp: c)
qed

text \<open>
  Within the capacity of the static array: when the threshold is a \<open>float\<close> and the
  diagnostic call gets, for every pair above the threshold, non-empty names with a
  longest common subsequence shorter than \<open>MAX_LCS\<close>, \<open>processNames\<close> leaves in
  \<open>results\<close> exactly the pairs \<open>(names[i], names[j])\<close> with \<open>i\<close> before \<open>j\<close> whose score
  strictly exceeds the threshold, in the order of the visit. The comparison runs on
  exactly the pairs of \<open>visited\<close>: the \<open>n * (n - 1) / 2\<close> pairs of positions
  \<open>i < j < n\<close>, each once, ordered by \<open>i\<close> and then by \<open>j\<close>.
\<close>

theorem processNames_within_capacity:
  assumes "binary32 t = t"
    and "\<forall>i j. i < j \<and> j < length names \<and> exceeds t (name (names ! i)) (name (names ! j)) \<longrightarrow>
           name (names ! i) \<noteq> [] \<and> name (names ! j) \<noteq> [] \<and>
           lenLCS (name (names ! i)) (name (names ! j)) < MAX_LCS"
    and "length lcs = MAX_LCS"
  shows "(\<exists>lcs'. processNames t names lcs =
            Some (Inr (map (\<lambda>(i, j). (names ! i, names ! j))
                        (filter (\<lambda>(i, j). exceeds t (name (names ! i)) (name (names ! j)))
                           (visited (length names))), lcs'))) \<and>
         processNames t names lcs =
           compare_all t (map (\<lambda>(i, j). (names ! i, names ! j)) (visited (length names)))
             ([], lcs) \<and>
         set (visited (length names)) = {(i, j). i < j \<and> j < length names} \<and>
         length (visited (length names)) = length names * (length names - 1) div 2 \<and>
         distinct (visited (length names)) \<and>
         sorted_wrt visit_before (visited (length names))"
proof -
  define ps where "ps = map (\<lambda>(i, j). (names ! i, names ! j)) (visited (length names))"
  have ok: "\<forall>p\<in>set ps. exceeds t (name (fst p)) (name (snd p)) \<longrightarrow>
            name (fst p) \<noteq> [] \<and> name (snd p) \<noteq> [] \<and>
            lenLCS (name (fst p)) (name (snd p)) < MAX_LCS"
    using assms(2) by (auto simp: ps_def set_visited)
  obtain lcs' where
    "compare_all t ps ([], lcs) =
       Some (Inr ([] @ filter (\<lambda>p. exceeds t (name (fst p)) (name (snd p))) ps, lcs'))"
    using compare_all_result [OF assms(1) ok assms(3), of "[]"] by blast
  moreover have "filter (\<lambda>p. exceeds t (name (fst p)) (name (snd p))) ps =
      map (\<lambda>(i, j). (names ! i, names ! j))
        (filter (\<lambda>(i, j). exceeds t (name (names ! i)) (name (names ! j))) (visited (length names)))"
    by (simp add: ps_def filter_map comp_def case_prod_unfold)
  ultimately have "\<exists>lcs'. processNames t names lcs =
            Some (Inr (map (\<lambda>(i, j). (names ! i, names ! j))
                        (filter (\<lambda>(i, j). exceeds t (name (names ! i)) (name (names ! j)))
                           (visited (length names))), lcs'))"
    by (simp add: processNames_compare_all ps_def)
  then show ?thesis
    using processNames_compare_all [of t names lcs] set_visited [of "length names"]
      length_visited [of "length names"] distinct_visited [of "length names"]
      sorted_visited [of "length names"]
    by blast
qed

lemma similarity_threshold_float:
  "similarity_threshold = 3 / 4" "binary32 similarity_threshold = similarity_threshold"
  by (simp_all add: similarity_threshold_def binary32_3_4)

lemma binary32_5_6: "binary32 (5 / 6) = 13981013 / 16777216"
  unfolding binary32_def
  by (subst round_to_fraction [where n = 24]) (simp_all add: round_even_def)

lemma visited_3: "visited 3 = [(0, 1), (0, 2), (1, 2)]"
  by code_simp

lemma scores_count:
  "exceeds similarity_threshold ''count'' ''countt''"
  "\<not> exceeds similarity_threshold ''count'' ''total''"
  "\<not> exceeds similarity_threshold ''countt'' ''total''"
proof -
  have a: "similarityMetric ''count'' ''countt'' = Inr (5 / 6)" by code_simp
  have b: "similarityMetric ''count'' ''total'' = Inr (2 / 5)" by code_simp
  have c: "similarityMetric ''countt'' ''total'' = Inr (1 / 3)" by code_simp
  show "exceeds similarity_threshold ''count'' ''countt''"
    by (simp add: exceeds_def a binary32_5_6 similarity_threshold_float(1))
  have "binary32 (2 / 5) \<le> binary32 (3 / 4)" by (intro binary32_mono) simp_all
  then show "\<not> exceeds similarity_threshold ''count'' ''total''"
    by (simp add: exceeds_def b binary32_3_4 similarity_threshold_float(1))
  have "binary32 (1 / 3) \<le> binary32 (3 / 4)" by (intro binary32_mono) simp_all
  then show "\<not> exceeds similarity_threshold ''countt'' ''total''"
    by (simp add: exceeds_def c binary32_3_4 similarity_threshold_float(1))
qed

text \<open>
  The names \<open>count\<close>, \<open>countt\<close> and \<open>total\<close> at the threshold 0.75: three pairs are
  compared and one match results.
\<close>

theorem processNames_count_countt_total:
  "\<exists>lcs'. processNames similarity_threshold
        [\<lparr>name = ''count'', associatedNode = 1::nat\<rparr>, \<lparr>name = ''countt'', associatedNode = 2\<rparr>,
         \<lparr>name = ''total'', associatedNode = 3\<rparr>] (replicate MAX_LCS NUL) =
      Some (Inr ([(\<lparr>name = ''count'', associatedNode = 1\<rparr>, \<lparr>name = ''countt'', associatedNode = 2\<rparr>)],
                 lcs'))"
proof -
  define names where "names = [\<lparr>name = ''count'', associatedNode = 1::nat\<rparr>,
    \<lparr>name = ''countt'', associatedNode = 2\<rparr>, \<lparr>name = ''total'', associatedNode = 3\<rparr>]"
  have n: "length names = 3" by (simp add: names_def)
  have nm: "\<forall>x\<in>set names. name x \<noteq> [] \<and> length (name x) < MAX_LCS"
    by (simp add: names_def MAX_LCS_def)
  have h2: "\<forall>i j. i < j \<and> j < length names \<and> exceeds similarity_threshold (name (names ! i)) (name (names ! j)) \<longrightarrow>
           name (names ! i) \<noteq> [] \<and> name (names ! j) \<noteq> [] \<and>
           lenLCS (name (names ! i)) (name (names ! j)) < MAX_LCS"
  proof (intro allI impI)
    fix i j
    assume h: "i < j \<and> j < length names \<and>
      exceeds similarity_threshold (name (names ! i)) (name (names ! j))"
    then have "names ! i \<in> set names" and "names ! j \<in> set names" by simp_all
    then have i: "name (names ! i) \<noteq> []" "length (name (names ! i)) < MAX_LCS"
      and j: "name (names ! j) \<noteq> []"
      using nm by blast+
    have "lenLCS (name (names ! i)) (name (names ! j))
        \<le> min (length (name (names ! i))) (length (name (names ! j)))"
      using is_lcs_length_le [OF lenLCS_is_lcs_length] .
    then show "name (names ! i) \<noteq> [] \<and> name (names ! j) \<noteq> [] \<and>
           lenLCS (name (names ! i)) (name (names ! j)) < MAX_LCS"
      using i j by simp
  qed
  have h3: "length (replicate MAX_LCS NUL) = MAX_LCS" by simp
  note t = processNames_within_capacity [OF similarity_threshold_float(2) h2 h3, unfolded n visited_3]
  show ?thesis
    using t [THEN conjunct1] scores_count unfolding names_def by simp
qed

text \<open>
  A score that equals the threshold is not above it: at the \<open>float\<close> nearest to 5/6
  the pair \<open>count\<close>, \<open>countt\<close>, whose quotient is 5/6, is no match, although the
  quotient is above that \<open>float\<close>.
\<close>

lemma score_equal_to_threshold:
  "similarityMetric ''count'' ''countt'' = Inr (5 / 6) \<and> binary32 (5 / 6) < 5 / 6 \<and>
   \<not> exceeds (binary32 (5 / 6)) ''count'' ''countt''"
proof -
  have "similarityMetric ''count'' ''countt'' = Inr (5 / 6)" by code_simp
  then show ?thesis by (simp add: exceeds_def binary32_5_6)
qed

text \<open>
  C1: \<open>processNames\<close> should leave in \<open>results\<close> the pairs whose score strictly exceeds
  the threshold. For two equal names of 256 characters, whose score 1 exceeds the
  threshold 0.75, the diagnostic call writes outside the static array before the
  pair is pushed, and no list of matches results.
\<close>

theorem processNames_long_names_fail:
  "exceeds similarity_threshold (replicate 256 CHR ''v'') (replicate 256 CHR ''v'') \<and>
   processNames similarity_threshold
     [\<lparr>name = replicate 256 CHR ''v'', associatedNode = 1::nat\<rparr>,
      \<lparr>name = replicate 256 CHR ''v'', associatedNode = 2\<rparr>] (replicate MAX_LCS NUL) =
   Some (Inl BufferOverflow)"
proof -
  let ?v = "replicate 256 CHR ''v''"
  have ne: "?v \<noteq> []" by simp
  have v2: "visited (Suc (Suc 0)) = [(0, 1)]" by code_simp
  have gp: "greatestPossibleSimilarity 256 256 = Fin 1"
    by (simp add: greatestPossibleSimilarity_def float_div_def float_gt_def)
  have g: "\<not> float_lt (greatestPossibleSimilarity (length ?v) (length ?v))
      similarity_threshold"
    by (simp add: gp float_lt_def similarity_threshold_float(1))
  have s: "similarityMetric ?v ?v = Inr 1"
    by (simp add: similarityMetric_longer lenLCS_replicate)
  have o: "longestCommonSubstring ?v ?v (replicate MAX_LCS NUL) = Some (Inl BufferOverflow)"
    by (rule longestCommonSubstring_too_long) (simp_all add: lenLCS_replicate MAX_LCS_def)
  have "compare_pair similarity_threshold \<lparr>name = ?v, associatedNode = 1::nat\<rparr> \<lparr>name = ?v, associatedNode = 2\<rparr>
          ([], replicate MAX_LCS NUL) = Some (Inl BufferOverflow)"
    using g by (simp add: compare_pair_def s o similarity_threshold_float(1))
  moreover have "exceeds similarity_threshold ?v ?v"
    by (simp add: exceeds_def s similarity_threshold_float(1))
  ultimately show ?thesis
    by (simp add: processNames_compare_all v2)
qed

end
